theory Spec2Isabelle
  imports Complex_Main "HOL-Library.Word" "HOL-Library.Multiset" "HOL-Library.Sublist"
begin

section \<open>The WeChat article workflow (services/weixin-article.workflow.ts)\<close>

text \<open>
  The theory embeds the class \<open>WeixinWorkflow\<close>: its constructor, \<open>scrapeSource\<close>,
  \<open>processContent\<close> and \<open>process\<close>. The workflow only sequences calls to
  collaborators whose code lives in other modules, so every collaborator is a parameter
  (a field of the record \<open>services\<close>), a call that may throw returns \<open>exn + 'a\<close>, and the
  mutable parts (the counters \<open>this.stats\<close>, the scraped objects, what the notifier was
  sent, which collaborator was called, when a scrape call was made and when it settled)
  are threaded through as a \<open>state\<close>.
\<close>

subsection \<open>JavaScript values\<close>

text \<open>
  A JavaScript string is a sequence of UTF-16 code units; \<open>length\<close> and \<open>slice\<close> count
  code units. The source's literals outside ASCII are written by their code units.
\<close>

type_synonym jsstring = "16 word list"

definition ascii :: "string \<Rightarrow> jsstring" where
  "ascii cs = map (\<lambda>c. word_of_nat (of_char c)) cs"

text \<open>A thrown value. \<open>TypeError\<close> is the engine's own error for a property read on
  \<open>undefined\<close>; everything else is thrown by a collaborator or by \<open>throw new Error(msg)\<close>.\<close>

datatype exn = Thrown jsstring | TypeError

text \<open>A number is a real: the run compares numbers (the balance with 1, two scores with
  each other) and truncates one (the article count); \<open>NaN\<close> and the infinities are left
  out, but for the \<open>NaN\<close> that the comparator makes of an unset score.\<close>

text \<open>What \<open>ConfigManager.get\<close> may hand to \<open>slice\<close> as its end bound.\<close>

datatype jsvalue = Undefined | Number real

subsection \<open>Data model\<close>

text \<open>\<open>ScrapedContent\<close> (modules/interfaces/scraper.interface.ts). The field \<open>id\<close> is
  named \<open>ident\<close> and \<open>metadata.keywords\<close> is \<open>keyword_list\<close>; a score that was never
  assigned (\<open>undefined\<close>) is \<open>None\<close>, a keyword list that is unset is \<open>None\<close>.\<close>

record Metadata =
  keyword_list :: "jsstring list option"

record ScrapedContent =
  ident :: jsstring
  title :: jsstring
  content :: jsstring
  url :: jsstring
  publishDate :: jsstring
  metadata :: Metadata
  media :: "jsstring list"
  score :: "real option"

record RankResult =
  rank_id :: jsstring
  rank_score :: real

text \<open>The value \<open>summarize\<close> resolves to.\<close>

record Summary =
  summary_title :: jsstring
  summary_content :: jsstring
  summary_keywords :: "jsstring list"

record WeixinTemplate =
  t_id :: jsstring
  t_title :: jsstring
  t_content :: jsstring
  t_url :: jsstring
  t_publishDate :: jsstring
  t_metadata :: Metadata
  t_keywords :: "jsstring list option"
  t_media :: "jsstring list"

record image_request =
  req_title :: jsstring
  sub_title :: jsstring
  prompt_text_zh :: jsstring
  generate_mode :: string
  generate_num :: nat

record Stats =
  success :: nat
  failed :: nat
  contents :: nat

record report =
  rep_sources :: nat
  rep_success :: nat
  rep_failed :: nat
  rep_contents :: nat
  rep_status :: jsstring

subsection \<open>Collaborators\<close>

type_synonym scrape_fn = "jsstring \<Rightarrow> exn + ScrapedContent list"

text \<open>
  Every capability the workflow calls. \<open>Inl\<close> is a rejected promise or a throw. The
  scrapers, the summarizer, the publisher, the renderer, the DeepSeek client and the ranker
  are the objects the constructor creates; \<open>getCronSources\<close>, \<open>ConfigManager.get\<close>,
  \<open>ImageGeneratorFactory.getGenerator\<close>, the generator's \<open>generate\<close> and
  \<open>new Date().toLocaleDateString()\<close> are module-level. \<open>getCronSources\<close> gives the
  identifiers of \<open>AI.firecrawl\<close> and of \<open>AI.twitter\<close>. The date is read twice in one run
  (for the headline, then for the poster's subtitle); the argument of
  \<open>toLocaleDateString\<close> says which read it is.
\<close>

record services =
  FireCrawlScraper_scrape :: scrape_fn
  TwitterScraper_scrape :: scrape_fn
  getCNYBalance :: "exn + real"
  getCronSources :: "exn + (jsstring list \<times> jsstring list)"
  rankContents :: "ScrapedContent list \<Rightarrow> exn + RankResult list"
  config_get :: "string \<Rightarrow> exn + jsvalue"
  summarize :: "ScrapedContent \<Rightarrow> exn + Summary"
  generateTitle :: "jsstring \<Rightarrow> exn + jsstring"
  getGenerator :: "string \<Rightarrow> exn + unit"
  generate :: "image_request \<Rightarrow> exn + jsstring"
  uploadImage :: "jsstring \<Rightarrow> exn + jsstring"
  render :: "WeixinTemplate list \<Rightarrow> exn + jsstring"
  publish :: "jsstring \<Rightarrow> jsstring \<Rightarrow> jsstring \<Rightarrow> jsstring \<Rightarrow> exn + jsstring"
  toLocaleDateString :: "nat \<Rightarrow> jsstring"

text \<open>The collaborator calls a run makes, in the order it makes them.\<close>

datatype call =
    GetCNYBalance
  | GetCronSources
  | Scrape string jsstring
  | RankContents "ScrapedContent list"
  | ConfigGet string
  | Summarize ScrapedContent
  | GenerateTitle jsstring
  | GetGenerator string
  | Generate image_request
  | UploadImage jsstring
  | Render "WeixinTemplate list"
  | Publish jsstring jsstring jsstring jsstring

subsection \<open>Notifications\<close>

text \<open>
  One constructor per call site of the notifier, carrying what the call site puts into the
  message: the start of the run; the balance warning; a failed scrape (type label, source
  identifier, thrown value); the empty result; the failed ranking; a failed enrichment
  (identifier of the item); the two final reports; the top-level failure.
\<close>

datatype notice =
    WorkflowStarted
  | LowBalance
  | ScrapeFailed string jsstring exn
  | NoContent
  | RankFailed
  | ContentFailed jsstring
  | CompletedPartial report
  | Completed report
  | WorkflowFailed exn

datatype level = Info | Warning | Error | Success

subsection \<open>State\<close>

text \<open>
  Scraped items are objects: the arrays \<open>allContents\<close> and \<open>topContents\<close> hold
  references, and \<open>content.score = ...\<close>, \<open>content.title = ...\<close> write through them. The
  store \<open>heap\<close> holds the objects, an address is an index into it, and an array of items is
  a list of addresses. The only addresses a run handles are those \<open>alloc\<close> returned, so
  every read \<open>heap s ! a\<close> is in range (\<open>scrape_stage_fresh\<close>,
  \<open>select_stage_keeps_shape\<close>).
\<close>

type_synonym addr = nat

text \<open>
  The two moments of an awaited scrape call: \<open>scraper.scrape(...)\<close> is called, and the
  promise it returned settles (\<open>await\<close> resumes, with the value or into \<open>catch\<close>). Each
  carries the type label and the source identifier of the call. Between the two the call
  is pending.
\<close>

datatype scrape_event = Started string jsstring | Settled string jsstring

record state =
  stats :: Stats
  heap :: "ScrapedContent list"
  notified :: "(level \<times> notice) list"
  calls :: "call list"
  scrape_events :: "scrape_event list"

definition record_call :: "call \<Rightarrow> state \<Rightarrow> state" where
  "record_call c s = s\<lparr>calls := calls s @ [c]\<rparr>"

text \<open>Modelled from the spec: the notifier (modules/notify/bark.notify.ts) is not among the
  sources; the specification makes it best-effort, with no result and no failure that the
  workflow sees. A notification is appended to the log and never throws.\<close>

definition notify :: "level \<Rightarrow> notice \<Rightarrow> state \<Rightarrow> state" where
  "notify l n s = s\<lparr>notified := notified s @ [(l, n)]\<rparr>"

text \<open>The object a freshly constructed workflow starts from: \<open>stats\<close> all zero, nothing
  scraped, nothing sent.\<close>

definition initial :: state where
  "initial = \<lparr>stats = \<lparr>success = 0, failed = 0, contents = 0\<rparr>, heap = [],
              notified = [], calls = [], scrape_events = []\<rparr>"

text \<open>The constructor's registry: \<open>this.scraper.set("fireCrawl", ...)\<close> and
  \<open>this.scraper.set("twitter", ...)\<close>.\<close>

definition scraper :: "services \<Rightarrow> string \<rightharpoonup> scrape_fn" where
  "scraper sv = [''fireCrawl'' \<mapsto> FireCrawlScraper_scrape sv,
                 ''twitter'' \<mapsto> TwitterScraper_scrape sv]"

subsection \<open>The scrape stage\<close>

text \<open>The objects a scraper returns are new; they enter the store when the call returns.\<close>

definition alloc :: "ScrapedContent list \<Rightarrow> state \<Rightarrow> addr list \<times> state" where
  "alloc cs s = ([length (heap s) ..< length (heap s) + length cs], s\<lparr>heap := heap s @ cs\<rparr>)"

definition bump_success :: "state \<Rightarrow> state" where
  "bump_success s = s\<lparr>stats := (stats s)\<lparr>success := success (stats s) + 1\<rparr>\<rparr>"

definition bump_failed :: "state \<Rightarrow> state" where
  "bump_failed s = s\<lparr>stats := (stats s)\<lparr>failed := failed (stats s) + 1\<rparr>\<rparr>"

text \<open>Line 54, \<open>await scraper.scrape(source.identifier)\<close>: the call is made, and
  \<open>scrapeSource\<close> goes on only when it has settled.\<close>

definition scrape_called :: "string \<Rightarrow> jsstring \<Rightarrow> state \<Rightarrow> state" where
  "scrape_called type source s =
     (record_call (Scrape type source) s)
       \<lparr>scrape_events := scrape_events s @ [Started type source]\<rparr>"

definition scrape_settled :: "string \<Rightarrow> jsstring \<Rightarrow> state \<Rightarrow> state" where
  "scrape_settled type source s = s\<lparr>scrape_events := scrape_events s @ [Settled type source]\<rparr>"

text \<open>\<open>scrapeSource\<close>, lines 47-68: the counter is incremented, and in the \<open>catch\<close> block
  the warning is sent, after the call has settled.\<close>

definition scrapeSource :: "string \<Rightarrow> jsstring \<Rightarrow> scrape_fn \<Rightarrow> state \<Rightarrow> addr list \<times> state" where
  "scrapeSource type source scraper_fn s =
     (case scraper_fn source of
        Inr cs \<Rightarrow>
          alloc cs (bump_success (scrape_settled type source (scrape_called type source s)))
      | Inl error \<Rightarrow>
          ([], notify Warning (ScrapeFailed type source error)
                 (bump_failed (scrape_settled type source (scrape_called type source s)))))"

text \<open>The two \<open>for ... of\<close> loops of lines 123-131 and 137-145: one source after the other,
  each result pushed onto \<open>allContents\<close>. The body awaits \<open>scrapeSource\<close>, so an iteration
  starts when the one before it is over.\<close>

fun scrape_loop ::
  "string \<Rightarrow> scrape_fn \<Rightarrow> jsstring list \<Rightarrow> addr list \<Rightarrow> state \<Rightarrow> addr list \<times> state" where
  "scrape_loop type scraper_fn [] allContents s = (allContents, s)"
| "scrape_loop type scraper_fn (source # rest) allContents s =
     (case scrapeSource type source scraper_fn s of
        (cs, s') \<Rightarrow> scrape_loop type scraper_fn rest (allContents @ cs) s')"

definition not_found :: "string \<Rightarrow> exn" where
  "not_found name = Thrown (ascii (name @ '' not found''))"

text \<open>Lines 117-146. The second registry lookup happens after the first loop has run.\<close>

definition scrape_stage ::
  "services \<Rightarrow> jsstring list \<Rightarrow> jsstring list \<Rightarrow> state \<Rightarrow> (exn + addr list) \<times> state" where
  "scrape_stage sv firecrawl twitter s =
     (case scraper sv ''fireCrawl'' of
        None \<Rightarrow> (Inl (not_found ''FireCrawlScraper''), s)
      | Some fireCrawlScraper \<Rightarrow>
          (case scrape_loop ''FireCrawl'' fireCrawlScraper firecrawl [] s of
             (allContents, s1) \<Rightarrow>
               (case scraper sv ''twitter'' of
                  None \<Rightarrow> (Inl (not_found ''TwitterScraper''), s1)
                | Some twitterScraper \<Rightarrow>
                    (case scrape_loop ''Twitter'' twitterScraper twitter allContents s1 of
                       (allContents', s2) \<Rightarrow> (Inr allContents', s2)))))"

subsection \<open>Ranking, filtering, sorting, truncating\<close>

definition deref :: "state \<Rightarrow> addr list \<Rightarrow> ScrapedContent list" where
  "deref s as = map (\<lambda>a. heap s ! a) as"

text \<open>Lines 158-165: a ranking that throws leaves \<open>rankedContents\<close> empty.\<close>

definition rank_stage :: "services \<Rightarrow> addr list \<Rightarrow> state \<Rightarrow> RankResult list \<times> state" where
  "rank_stage sv allContents s =
     (case rankContents sv (deref s allContents) of
        Inr rankedContents \<Rightarrow> (rankedContents, record_call (RankContents (deref s allContents)) s)
      | Inl error \<Rightarrow>
          ([], notify Error RankFailed (record_call (RankContents (deref s allContents)) s)))"

text \<open>The callback of \<open>allContents.filter\<close>, lines 171-180, run over the array from left
  to right: \<open>find\<close> gives the first rank result with the item's identifier; a found result
  writes its score into the object and keeps the reference.\<close>

fun filter_loop ::
  "RankResult list \<Rightarrow> addr list \<Rightarrow> ScrapedContent list \<Rightarrow> addr list \<times> ScrapedContent list" where
  "filter_loop rankedContents [] h = ([], h)"
| "filter_loop rankedContents (a # as) h =
     (case find (\<lambda>ranked. rank_id ranked = ident (h ! a)) rankedContents of
        Some rankedContent \<Rightarrow>
          (case filter_loop rankedContents as
                  (h[a := (h ! a)\<lparr>score := Some (rank_score rankedContent)\<rparr>]) of
             (kept, h') \<Rightarrow> (a # kept, h'))
      | None \<Rightarrow> filter_loop rankedContents as h)"

text \<open>Lines 169-184.\<close>

definition filter_stage :: "RankResult list \<Rightarrow> addr list \<Rightarrow> state \<Rightarrow> addr list \<times> state" where
  "filter_stage rankedContents allContents s =
     (if length rankedContents > 0
      then (case filter_loop rankedContents allContents (heap s) of
              (kept, h') \<Rightarrow> (kept, s\<lparr>heap := h'\<rparr>))
      else (allContents, s))"

text \<open>
  The comparator of line 187, \<open>(a, b) => b.score - a.score\<close>. With an unset score the
  difference is \<open>NaN\<close> (here \<open>None\<close>), which \<open>sort\<close> reads as \<open>0\<close>.
\<close>

definition compareFn :: "ScrapedContent \<Rightarrow> ScrapedContent \<Rightarrow> real option" where
  "compareFn a b =
     (case score b of
        None \<Rightarrow> None
      | Some sb \<Rightarrow> (case score a of None \<Rightarrow> None | Some sa \<Rightarrow> Some (sb - sa)))"

definition keeps_order :: "real option \<Rightarrow> bool" where
  "keeps_order v = (case v of None \<Rightarrow> True | Some d \<Rightarrow> d \<le> 0)"

text \<open>
  \<open>Array.prototype.sort\<close> is stable: two items change places only when the comparator is
  positive for them. The sort is written as a stable insertion sort; every stable sort
  gives the same array when the comparator is consistent, as it is when all scores are set
  or all are unset. When some scores are set and others are not, the comparator is
  inconsistent, the language leaves the order to the engine, and \<open>sort_by_score\<close> need not
  give the engine's order; nothing below relies on the order in that case.
\<close>

fun sort_insert :: "ScrapedContent list \<Rightarrow> addr \<Rightarrow> addr list \<Rightarrow> addr list" where
  "sort_insert h x [] = [x]"
| "sort_insert h x (y # ys) =
     (if keeps_order (compareFn (h ! x) (h ! y)) then x # y # ys else y # sort_insert h x ys)"

fun sort_by_score :: "ScrapedContent list \<Rightarrow> addr list \<Rightarrow> addr list" where
  "sort_by_score h [] = []"
| "sort_by_score h (x # xs) = sort_insert h x (sort_by_score h xs)"

text \<open>Lines 156-187 together: what enters the truncation.\<close>

definition select_stage :: "services \<Rightarrow> addr list \<Rightarrow> state \<Rightarrow> addr list \<times> state" where
  "select_stage sv allContents s =
     (case rank_stage sv allContents s of
        (rankedContents, s1) \<Rightarrow>
          (case filter_stage rankedContents allContents s1 of
             (kept, s2) \<Rightarrow> (sort_by_score (heap s2) kept, s2)))"

text \<open>\<open>ToIntegerOrInfinity\<close> on a finite number: truncation towards zero.\<close>

definition to_integer :: "real \<Rightarrow> int" where
  "to_integer v = (if v < 0 then \<lceil>v\<rceil> else \<lfloor>v\<rfloor>)"

text \<open>\<open>xs.slice(0, end)\<close>: an undefined end is the length, a negative end counts from the
  back, and the end is clamped to the array.\<close>

definition slice0 :: "'a list \<Rightarrow> jsvalue \<Rightarrow> 'a list" where
  "slice0 xs end_bound =
     (let len = int (length xs);
          relEnd = (case end_bound of Undefined \<Rightarrow> len | Number v \<Rightarrow> to_integer v);
          final = (if relEnd < 0 then max (len + relEnd) 0 else min relEnd len)
      in take (nat final) xs)"

subsection \<open>Enrichment\<close>

text \<open>The placeholders of lines 83-84, by code unit.\<close>

definition untitled :: jsstring where
  "untitled = [0x65E0, 0x6807, 0x9898]"

definition processing_failed :: jsstring where
  "processing_failed = [0x5185, 0x5BB9, 0x5904, 0x7406, 0x5931, 0x8D25]"

text \<open>Lines 73-75.\<close>

definition overwrite :: "Summary \<Rightarrow> ScrapedContent \<Rightarrow> ScrapedContent" where
  "overwrite summary c =
     c\<lparr>title := summary_title summary,
       content := summary_content summary,
       metadata := (metadata c)\<lparr>keyword_list := Some (summary_keywords summary)\<rparr>\<rparr>"

text \<open>Lines 83-85: \<open>x || d\<close> is \<open>d\<close> when \<open>x\<close> is the empty string or \<open>undefined\<close>; an
  array, empty or not, is kept.\<close>

definition fallback :: "ScrapedContent \<Rightarrow> ScrapedContent" where
  "fallback c =
     c\<lparr>title := (if title c = [] then untitled else title c),
       content := (if content c = [] then processing_failed else content c),
       metadata := (metadata c)\<lparr>keyword_list :=
         (case keyword_list (metadata c) of None \<Rightarrow> Some [] | Some ks \<Rightarrow> Some ks)\<rparr>\<rparr>"

text \<open>\<open>processContent\<close> from the point where \<open>await summarize(...)\<close> settles: the rest of
  the \<open>try\<close> block, or the \<open>catch\<close> block.\<close>

definition processContent_resume :: "addr \<Rightarrow> exn + Summary \<Rightarrow> state \<Rightarrow> state" where
  "processContent_resume a outcome s =
     (case outcome of
        Inr summary \<Rightarrow> s\<lparr>heap := (heap s)[a := overwrite summary (heap s ! a)]\<rparr>
      | Inl error \<Rightarrow>
          (let s1 = notify Warning (ContentFailed (ident (heap s ! a))) s
           in s1\<lparr>heap := (heap s1)[a := fallback (heap s1 ! a)]\<rparr>))"

text \<open>\<open>processContent\<close>, lines 70-87, run on its own.\<close>

definition processContent :: "services \<Rightarrow> addr \<Rightarrow> state \<Rightarrow> state" where
  "processContent sv a s =
     processContent_resume a (summarize sv (heap s ! a)) (record_call (Summarize (heap s ! a)) s)"

text \<open>
  One \<open>Promise.all(batch.map(...))\<close>, lines 204-209. \<open>map\<close> starts every
  \<open>processContent\<close> of the batch before any of them resumes, so each \<open>summarize\<close> is
  called, in array order, with the item as it is when the batch starts. The calls then
  settle in an order the source does not fix; the model resumes them in array order.
\<close>

definition process_batch :: "services \<Rightarrow> addr list \<Rightarrow> state \<Rightarrow> state" where
  "process_batch sv batch s =
     fold (\<lambda>(a, outcome). processContent_resume a outcome)
          (zip batch (map (\<lambda>a. summarize sv (heap s ! a)) batch))
          (fold (\<lambda>a. record_call (Summarize (heap s ! a))) batch s)"

definition batchSize :: nat where
  "batchSize = 10"

text \<open>The loop of lines 202-210.\<close>

function enrich_loop :: "services \<Rightarrow> nat \<Rightarrow> addr list \<Rightarrow> state \<Rightarrow> state" where
  "enrich_loop sv i topContents s =
     (if i < length topContents
      then enrich_loop sv (i + batchSize) topContents
             (process_batch sv (take batchSize (drop i topContents)) s)
      else s)"
  by pat_completeness auto
termination
  by (relation "measure (\<lambda>(sv, i, topContents, s). length topContents - i)")
     (auto simp: batchSize_def)

declare enrich_loop.simps [simp del]

definition enrich_stage :: "services \<Rightarrow> addr list \<Rightarrow> state \<Rightarrow> state" where
  "enrich_stage sv topContents s = enrich_loop sv 0 topContents s"

subsection \<open>Headline, cover image, publication\<close>

text \<open>The separator \<open>" | "\<close>, and the campaign label of line 232 (a space, \<open>AI\<close>, two
  ideographs, and the separator).\<close>

definition separator :: jsstring where
  "separator = [0x20, 0x7C, 0x20]"

definition campaign :: jsstring where
  "campaign = [0x20, 0x41, 0x49, 0x901F, 0x9012]"

text \<open>\<open>Array.prototype.join\<close>.\<close>

fun join :: "jsstring \<Rightarrow> jsstring list \<Rightarrow> jsstring" where
  "join sep [] = []"
| "join sep [x] = x"
| "join sep (x # y # ys) = x @ sep @ join sep (y # ys)"

text \<open>Line 230: the titles of all of \<open>allContents\<close>, read when the headline is asked for.\<close>

definition joined_titles :: "state \<Rightarrow> addr list \<Rightarrow> jsstring" where
  "joined_titles s allContents = join separator (map (\<lambda>a. title (heap s ! a)) allContents)"

text \<open>Lines 231-235: the callback of \<open>then\<close>.\<close>

definition headline :: "jsstring \<Rightarrow> jsstring \<Rightarrow> jsstring" where
  "headline date generated = take 64 (date @ campaign @ separator @ generated)"

text \<open>\<open>String.prototype.split\<close> with a non-empty separator: cut at each occurrence, from
  the left, occurrences not overlapping. \<open>cur\<close> is the segment being read.\<close>

function split :: "jsstring \<Rightarrow> jsstring \<Rightarrow> jsstring \<Rightarrow> jsstring list" where
  "split sep cur [] = [cur]"
| "split sep cur (c # cs) =
     (if sep \<noteq> [] \<and> take (length sep) (c # cs) = sep
      then cur # split sep [] (drop (length sep) (c # cs))
      else split sep (cur @ [c]) cs)"
  by pat_completeness auto
termination
  by (relation "measure (\<lambda>(sep, cur, s). length s)") auto

text \<open>The code units \<open>trim\<close> removes: white space and line terminators.\<close>

definition is_space :: "16 word \<Rightarrow> bool" where
  "is_space c =
     (c \<in> {0x09, 0x0A, 0x0B, 0x0C, 0x0D, 0x20, 0xA0, 0x1680, 0x2028, 0x2029, 0x202F,
           0x205F, 0x3000, 0xFEFF}
      \<or> (0x2000 \<le> c \<and> c \<le> 0x200A))"

definition trim :: "jsstring \<Rightarrow> jsstring" where
  "trim s = rev (dropWhile is_space (rev (dropWhile is_space s)))"

text \<open>\<open>summaryTitle.split(" | ")[1].trim().slice(0, 30)\<close>, lines 242 and 244. Without a
  second segment \<open>[1]\<close> is \<open>undefined\<close> and \<open>.trim()\<close> throws.\<close>

definition short_title :: "jsstring \<Rightarrow> jsstring option" where
  "short_title summaryTitle =
     (case split separator [] summaryTitle of
        seg0 # seg1 # segs \<Rightarrow> Some (take 30 (trim seg1))
      | _ \<Rightarrow> None)"

text \<open>The fixed start of \<open>prompt_text_zh\<close>, line 244, by code unit.\<close>

definition prompt_prefix :: jsstring where
  "prompt_prefix =
     [0x79D1, 0x6280, 0x524D, 0x6CBF, 0x8D44, 0x8BAF, 0x20, 0x7C, 0x20,
      0x4EBA, 0x5DE5, 0x667A, 0x80FD, 0x65B0, 0x95FB, 0x20, 0x7C, 0x20,
      0x6BCF, 0x65E5, 0x41, 0x49, 0x5FEB, 0x62A5, 0x20, 0x2D, 0x20]"

text \<open>Lines 215-224.\<close>

definition template_of :: "ScrapedContent \<Rightarrow> WeixinTemplate" where
  "template_of c =
     \<lparr>t_id = ident c, t_title = title c, t_content = content c, t_url = url c,
      t_publishDate = publishDate c, t_metadata = metadata c,
      t_keywords = keyword_list (metadata c), t_media = media c\<rparr>"

text \<open>Lines 262-276.\<close>

definition report_stage :: "nat \<Rightarrow> jsstring \<Rightarrow> state \<Rightarrow> state" where
  "report_stage totalSources status s =
     (let summary = \<lparr>rep_sources = totalSources, rep_success = success (stats s),
                     rep_failed = failed (stats s), rep_contents = contents (stats s),
                     rep_status = status\<rparr>
      in if failed (stats s) > 0 then notify Warning (CompletedPartial summary) s
         else notify Success (Completed summary) s)"

text \<open>Lines 229-235: the headline. A throw here, as in the two stages after it, reaches
  the handler of \<open>process\<close>.\<close>

definition headline_stage :: "services \<Rightarrow> addr list \<Rightarrow> state \<Rightarrow> (exn + jsstring) \<times> state" where
  "headline_stage sv allContents s =
     (case generateTitle sv (joined_titles s allContents) of
        Inl error \<Rightarrow> (Inl error, record_call (GenerateTitle (joined_titles s allContents)) s)
      | Inr generated \<Rightarrow>
          (Inr (headline (toLocaleDateString sv 0) generated),
           record_call (GenerateTitle (joined_titles s allContents)) s))"

text \<open>Lines 240-247: the cover image. The generator is looked up first; the arguments
  of \<open>generate\<close> are evaluated after that.\<close>

definition cover_stage :: "services \<Rightarrow> jsstring \<Rightarrow> state \<Rightarrow> (exn + jsstring) \<times> state" where
  "cover_stage sv summaryTitle s =
     (case getGenerator sv ''ALIWANX_POSTER'' of
        Inl error \<Rightarrow> (Inl error, record_call (GetGenerator ''ALIWANX_POSTER'') s)
      | Inr imageGenerator \<Rightarrow>
          (case short_title summaryTitle of
             None \<Rightarrow> (Inl TypeError, record_call (GetGenerator ''ALIWANX_POSTER'') s)
           | Some short \<Rightarrow>
               (let request = \<lparr>req_title = short,
                               sub_title = toLocaleDateString sv 1 @ campaign,
                               prompt_text_zh = prompt_prefix @ short,
                               generate_mode = ''generate'', generate_num = 1\<rparr>;
                    s1 = record_call (Generate request)
                           (record_call (GetGenerator ''ALIWANX_POSTER'') s)
                in case generate sv request of
                     Inl error \<Rightarrow> (Inl error, s1)
                   | Inr imageUrl \<Rightarrow> (Inr imageUrl, s1))))"

text \<open>Lines 250-276: upload, render, publish, report.\<close>

definition ship_stage ::
  "services \<Rightarrow> nat \<Rightarrow> WeixinTemplate list \<Rightarrow> jsstring \<Rightarrow> jsstring \<Rightarrow> state
     \<Rightarrow> (exn + unit) \<times> state" where
  "ship_stage sv totalSources templateData summaryTitle imageUrl s =
     (let s1 = record_call (UploadImage imageUrl) s
      in case uploadImage sv imageUrl of
           Inl error \<Rightarrow> (Inl error, s1)
         | Inr mediaId \<Rightarrow>
      (let s2 = record_call (Render templateData) s1
       in case render sv templateData of
            Inl error \<Rightarrow> (Inl error, s2)
          | Inr renderedTemplate \<Rightarrow>
      (let s3 = record_call (Publish renderedTemplate summaryTitle summaryTitle mediaId) s2
       in case publish sv renderedTemplate summaryTitle summaryTitle mediaId of
            Inl error \<Rightarrow> (Inl error, s3)
          | Inr status \<Rightarrow> (Inr (), report_stage totalSources status s3))))"

text \<open>Lines 213-276: \<open>templateData\<close> is built from \<open>topContents\<close>, the headline from
  \<open>allContents\<close>.\<close>

definition publish_stage ::
  "services \<Rightarrow> nat \<Rightarrow> addr list \<Rightarrow> addr list \<Rightarrow> state \<Rightarrow> (exn + unit) \<times> state" where
  "publish_stage sv totalSources allContents topContents s =
     (let templateData = map template_of (deref s topContents)
      in case headline_stage sv allContents s of
           (Inl error, s1) \<Rightarrow> (Inl error, s1)
         | (Inr summaryTitle, s1) \<Rightarrow>
             (case cover_stage sv summaryTitle s1 of
                (Inl error, s2) \<Rightarrow> (Inl error, s2)
              | (Inr imageUrl, s2) \<Rightarrow>
                  ship_stage sv totalSources templateData summaryTitle imageUrl s2))"

subsection \<open>The run\<close>

text \<open>Lines 156-276: from the ranking to the report.\<close>

definition after_scrape ::
  "services \<Rightarrow> nat \<Rightarrow> addr list \<Rightarrow> state \<Rightarrow> (exn + unit) \<times> state" where
  "after_scrape sv totalSources allContents s =
     (case select_stage sv allContents s of
        (ordered, s1) \<Rightarrow>
          (case config_get sv ''ARTICLE_NUM'' of
             Inl error \<Rightarrow> (Inl error, record_call (ConfigGet ''ARTICLE_NUM'') s1)
           | Inr n \<Rightarrow>
               (let topContents = slice0 ordered n
                in publish_stage sv totalSources ordered topContents
                     (enrich_stage sv topContents
                        (record_call (ConfigGet ''ARTICLE_NUM'') s1)))))"

text \<open>Lines 104-154: the scrape stage and the early return on an empty result.\<close>

definition after_sources ::
  "services \<Rightarrow> jsstring list \<Rightarrow> jsstring list \<Rightarrow> state \<Rightarrow> (exn + unit) \<times> state" where
  "after_sources sv firecrawl twitter s =
     (case scrape_stage sv firecrawl twitter s of
        (Inl error, s1) \<Rightarrow> (Inl error, s1)
      | (Inr allContents, s1) \<Rightarrow>
          (let s2 = s1\<lparr>stats := (stats s1)\<lparr>contents := length allContents\<rparr>\<rparr>
           in if contents (stats s2) = 0 then (Inr (), notify Error NoContent s2)
              else after_scrape sv (length firecrawl + length twitter) allContents s2))"

text \<open>The \<open>try\<close> block of \<open>process\<close>, lines 91-276. The balance warning of line 99 is sent
  without \<open>await\<close>.\<close>

definition process_try :: "services \<Rightarrow> state \<Rightarrow> (exn + unit) \<times> state" where
  "process_try sv s =
     (let s1 = record_call GetCNYBalance (notify Info WorkflowStarted s)
      in case getCNYBalance sv of
           Inl error \<Rightarrow> (Inl error, s1)
         | Inr deepSeekBalance \<Rightarrow>
             (let s2 = (if deepSeekBalance < 1.0 then notify Warning LowBalance s1 else s1);
                  s3 = record_call GetCronSources s2
              in case getCronSources sv of
                   Inl error \<Rightarrow> (Inl error, s3)
                 | Inr (firecrawl, twitter) \<Rightarrow> after_sources sv firecrawl twitter s3))"

text \<open>\<open>process\<close>, lines 89-283: the \<open>catch\<close> block notifies and throws the error again.\<close>

definition process :: "services \<Rightarrow> state \<Rightarrow> (exn + unit) \<times> state" where
  "process sv s =
     (case process_try sv s of
        (Inl error, s') \<Rightarrow> (Inl error, notify Error (WorkflowFailed error) s')
      | (Inr done, s') \<Rightarrow> (Inr done, s'))"

section \<open>Notions used in the statements\<close>

subsection \<open>Predicates and views\<close>

text \<open>The largest number of scrape calls pending at one moment of a sequence of events,
  with \<open>n\<close> calls pending when it begins.\<close>

fun max_pending :: "nat \<Rightarrow> scrape_event list \<Rightarrow> nat" where
  "max_pending n [] = n"
| "max_pending n (Started type source # es) = max n (max_pending (Suc n) es)"
| "max_pending n (Settled type source # es) = max n (max_pending (n - 1) es)"

text \<open>The events of scraping the sources of a list one at a time: each call settles before
  the next is made.\<close>

definition in_turn :: "string \<Rightarrow> jsstring list \<Rightarrow> scrape_event list" where
  "in_turn type sources = concat (map (\<lambda>source. [Started type source, Settled type source]) sources)"

text \<open>A source contributes no item: its scrape throws or returns an empty array.\<close>

definition yields_nothing :: "scrape_fn \<Rightarrow> jsstring \<Rightarrow> bool" where
  "yields_nothing scraper_fn source =
     (case scraper_fn source of Inl error \<Rightarrow> True | Inr cs \<Rightarrow> cs = [])"

text \<open>What the filter leaves in the store: an object reached by the array and matched by
  a rank result has that result's score, every other object is as it was.\<close>

definition scored :: "RankResult list \<Rightarrow> ScrapedContent \<Rightarrow> ScrapedContent" where
  "scored ranked c =
     (case find (\<lambda>r. rank_id r = ident c) ranked of
        None \<Rightarrow> c
      | Some r \<Rightarrow> c\<lparr>score := Some (rank_score r)\<rparr>)"

text \<open>The order the comparator asks for when both scores are set.\<close>

definition not_below :: "ScrapedContent list \<Rightarrow> addr \<Rightarrow> addr \<Rightarrow> bool" where
  "not_below h a b = (the (score (h ! b)) \<le> the (score (h ! a)))"

text \<open>What one item looks like after \<open>processContent\<close>: overwritten by the summary, or
  with the fallbacks when \<open>summarize\<close> throws.\<close>

definition enriched :: "services \<Rightarrow> ScrapedContent \<Rightarrow> ScrapedContent" where
  "enriched sv c =
     (case summarize sv c of Inr summary \<Rightarrow> overwrite summary c | Inl error \<Rightarrow> fallback c)"

text \<open>Both logs of \<open>s'\<close> continue those of \<open>s\<close>.\<close>

definition extends :: "state \<Rightarrow> state \<Rightarrow> bool" where
  "extends s s' = (prefix (calls s) (calls s') \<and> prefix (notified s) (notified s'))"

text \<open>The number of code points in a string of code units: a high surrogate followed by a
  low surrogate is one code point, every other code unit is one.\<close>

fun code_points :: "jsstring \<Rightarrow> nat" where
  "code_points [] = 0"
| "code_points [c] = 1"
| "code_points (c # d # cs) =
     (if 0xD800 \<le> c \<and> c \<le> 0xDBFF \<and> 0xDC00 \<le> d \<and> d \<le> 0xDFFF
      then Suc (code_points cs) else Suc (code_points (d # cs)))"

text \<open>The calls that are \<open>summarize\<close> calls.\<close>

definition is_summarize :: "call \<Rightarrow> bool" where
  "is_summarize c = (case c of Summarize x \<Rightarrow> True | _ \<Rightarrow> False)"

subsection \<open>Example runs\<close>

text \<open>An item as a scraper returns it: identifier and title given, score unset.\<close>

definition item :: "jsstring \<Rightarrow> jsstring \<Rightarrow> ScrapedContent" where
  "item i t = \<lparr>ident = i, title = t, content = [], url = [], publishDate = [],
               metadata = \<lparr>keyword_list = None\<rparr>, media = [], score = None\<rparr>"

text \<open>A run with two sources of the first type (the second one fails) and one of the
  second; items \<open>C\<close>, \<open>B\<close> (empty title) and \<open>A\<close>; ranks \<open>A: 0.9\<close>, \<open>B: 0.4\<close>;
  \<open>summarize\<close> failing for \<open>B\<close> only.\<close>

definition demo :: services where
  "demo =
     \<lparr>FireCrawlScraper_scrape =
        (\<lambda>source. if source = [0x66, 0x31] then Inr [item [0x43] [0x63], item [0x42] []]
                   else Inl (Thrown [0x64, 0x6F, 0x77, 0x6E])),
      TwitterScraper_scrape = (\<lambda>source. Inr [item [0x41] [0x61]]),
      getCNYBalance = Inr 5,
      getCronSources = Inr ([[0x66, 0x31], [0x66, 0x32]], [[0x74, 0x31]]),
      rankContents =
        (\<lambda>cs. Inr [\<lparr>rank_id = [0x41], rank_score = 0.9\<rparr>, \<lparr>rank_id = [0x42], rank_score = 0.4\<rparr>]),
      config_get = (\<lambda>key. Inr (Number 10)),
      summarize =
        (\<lambda>c. if ident c = [0x42] then Inl (Thrown [0x71])
              else Inr \<lparr>summary_title = [0x53], summary_content = [0x54],
                        summary_keywords = []\<rparr>),
      generateTitle = (\<lambda>joined. Inr [0x4E, 0x65, 0x77, 0x73]),
      getGenerator = (\<lambda>name. Inr ()),
      generate = (\<lambda>request. Inr [0x69]),
      uploadImage = (\<lambda>imageUrl. Inr [0x6D]),
      render = (\<lambda>templateData. Inr [0x64]),
      publish = (\<lambda>article t summary mediaId. Inr [0x6F, 0x6B]),
      toLocaleDateString = (\<lambda>k. [0x31, 0x31, 0x2F, 0x33, 0x2F, 0x32, 0x30, 0x32, 0x36])\<rparr>"

text \<open>The same run with sources that give nothing.\<close>

definition quiet :: services where
  "quiet = demo\<lparr>FireCrawlScraper_scrape := (\<lambda>source. Inr []),
                 TwitterScraper_scrape := (\<lambda>source. Inl (Thrown [0x64, 0x6F, 0x77, 0x6E]))\<rparr>"

text \<open>The state after the demo run's scrape stage: \<open>C\<close>, \<open>B\<close>, \<open>A\<close> at addresses 0, 1, 2.\<close>

definition scraped :: state where
  "scraped = initial\<lparr>heap := [item [0x43] [0x63], item [0x42] [], item [0x41] [0x61]]\<rparr>"

text \<open>The demo run with a fourth item \<open>D\<close>, ranked last, and two articles to publish.\<close>

definition demo2 :: services where
  "demo2 = demo
     \<lparr>TwitterScraper_scrape := (\<lambda>source. Inr [item [0x41] [0x61], item [0x44] [0x64]]),
      rankContents :=
        (\<lambda>cs. Inr [\<lparr>rank_id = [0x41], rank_score = 0.9\<rparr>, \<lparr>rank_id = [0x42], rank_score = 0.4\<rparr>,
                    \<lparr>rank_id = [0x44], rank_score = 0.2\<rparr>]),
      config_get := (\<lambda>key. Inr (Number 2))\<rparr>"

section \<open>Properties\<close>

subsection \<open>The scrape stage\<close>

lemma scraper_fireCrawl: "scraper sv ''fireCrawl'' = Some (FireCrawlScraper_scrape sv)"
  by (simp add: scraper_def)

lemma scraper_twitter: "scraper sv ''twitter'' = Some (TwitterScraper_scrape sv)"
  by (simp add: scraper_def)

lemma scrapeSource_calls:
  "calls (snd (scrapeSource type source f s)) = calls s @ [Scrape type source]"
  by (simp add: scrapeSource_def scrape_called_def scrape_settled_def alloc_def bump_success_def bump_failed_def record_call_def
      notify_def split: sum.splits)

lemma scrapeSource_counters:
  "(success (stats (snd (scrapeSource type source f s))) = success (stats s) + 1
      \<and> failed (stats (snd (scrapeSource type source f s))) = failed (stats s))
   \<or> (success (stats (snd (scrapeSource type source f s))) = success (stats s)
      \<and> failed (stats (snd (scrapeSource type source f s))) = failed (stats s) + 1)"
  by (simp add: scrapeSource_def scrape_called_def scrape_settled_def alloc_def bump_success_def bump_failed_def record_call_def
      notify_def split: sum.splits)

lemma scrapeSource_total:
  "success (stats (snd (scrapeSource type source f s)))
     + failed (stats (snd (scrapeSource type source f s)))
   = success (stats s) + failed (stats s) + 1"
  using scrapeSource_counters [of type source f s] by auto

lemma scrape_loop_calls:
  "calls (snd (scrape_loop type f sources acc s)) = calls s @ map (Scrape type) sources"
proof (induction sources arbitrary: acc s)
  case Nil
  show ?case by simp
next
  case (Cons source rest)
  obtain cs s' where step: "scrapeSource type source f s = (cs, s')"
    by (cases "scrapeSource type source f s")
  have "calls s' = calls s @ [Scrape type source]"
    using scrapeSource_calls [of type source f s] step by simp
  then show ?case
    using Cons.IH [of "acc @ cs" s'] step by simp
qed

lemma scrape_loop_total:
  "success (stats (snd (scrape_loop type f sources acc s)))
     + failed (stats (snd (scrape_loop type f sources acc s)))
   = success (stats s) + failed (stats s) + length sources"
proof (induction sources arbitrary: acc s)
  case Nil
  show ?case by simp
next
  case (Cons source rest)
  obtain cs s' where step: "scrapeSource type source f s = (cs, s')"
    by (cases "scrapeSource type source f s")
  have "success (stats s') + failed (stats s') = success (stats s) + failed (stats s) + 1"
    using scrapeSource_total [of type source f s] step by simp
  then show ?case
    using Cons.IH [of "acc @ cs" s'] step by simp
qed

lemma scrape_stage_loops:
  "scrape_stage sv firecrawl twitter s =
     (Inr (fst (scrape_loop ''Twitter'' (TwitterScraper_scrape sv) twitter
                 (fst (scrape_loop ''FireCrawl'' (FireCrawlScraper_scrape sv) firecrawl [] s))
                 (snd (scrape_loop ''FireCrawl'' (FireCrawlScraper_scrape sv) firecrawl [] s)))),
      snd (scrape_loop ''Twitter'' (TwitterScraper_scrape sv) twitter
                 (fst (scrape_loop ''FireCrawl'' (FireCrawlScraper_scrape sv) firecrawl [] s))
                 (snd (scrape_loop ''FireCrawl'' (FireCrawlScraper_scrape sv) firecrawl [] s))))"
  by (simp add: scrape_stage_def scraper_fireCrawl scraper_twitter split: prod.splits)

text \<open>When the calls are made and when they settle.\<close>

lemma scrapeSource_events:
  "scrape_events (snd (scrapeSource type source f s))
     = scrape_events s @ [Started type source, Settled type source]"
  by (simp add: scrapeSource_def scrape_called_def scrape_settled_def alloc_def bump_success_def
      bump_failed_def record_call_def notify_def split: sum.splits)

lemma scrape_loop_events:
  "scrape_events (snd (scrape_loop type f sources acc s))
     = scrape_events s @ in_turn type sources"
proof (induction sources arbitrary: acc s)
  case Nil
  show ?case by (simp add: in_turn_def)
next
  case (Cons source rest)
  obtain cs s' where step: "scrapeSource type source f s = (cs, s')"
    by (cases "scrapeSource type source f s")
  have "scrape_events s' = scrape_events s @ [Started type source, Settled type source]"
    using scrapeSource_events [of type source f s] step by simp
  then show ?case
    using Cons.IH [of "acc @ cs" s'] step by (simp add: in_turn_def)
qed

lemma max_pending_in_turn:
  "max_pending 0 (in_turn type sources @ es)
     = (if sources = [] then max_pending 0 es else max 1 (max_pending 0 es))"
proof (induction sources)
  case Nil
  show ?case by (simp add: in_turn_def)
next
  case (Cons source rest)
  have "in_turn type (source # rest) @ es
      = Started type source # Settled type source # (in_turn type rest @ es)"
    by (simp add: in_turn_def)
  then show ?case
    using Cons.IH by simp
qed

lemma max_pending_one_at_a_time:
  "max_pending 0 (in_turn type sources @ in_turn type' sources') \<le> 1"
  using max_pending_in_turn [of type sources "in_turn type' sources'"]
    max_pending_in_turn [of type' sources' "[]"]
  by (simp split: if_splits)

lemma max_pending_ge: "n \<le> max_pending n es"
proof (cases es)
  case Nil
  then show ?thesis by simp
next
  case (Cons e rest)
  then show ?thesis by (cases e) simp_all
qed

text \<open>Two calls made with none settled in between are seen.\<close>

lemma max_pending_overlap:
  "2 \<le> max_pending 0 (Started type source # Started type' source' # es)"
  using max_pending_ge [of "Suc (Suc 0)" es] by (simp add: numeral_2_eq_2)

text \<open>
  Claim C5. With \<open>f\<close> sources of the first type and \<open>t\<close> of the second, the scrape
  stage calls \<open>scrape\<close> exactly \<open>f + t\<close> times, in the order of the two lists, and
  strictly one call at a time: every call settles before the next one is made, so at no
  moment is more than one scrape call pending. The two counters together grow by
  \<open>f + t\<close>, so on a new workflow object, whose counters start at zero,
  \<open>success + failed = f + t\<close> when the stage is done; and one call of \<open>scrapeSource\<close>
  increments exactly one of the two counters.
\<close>

theorem scrape_stage_counts:
  "calls (snd (scrape_stage sv firecrawl twitter s))
     = calls s @ map (Scrape ''FireCrawl'') firecrawl @ map (Scrape ''Twitter'') twitter
   \<and> scrape_events (snd (scrape_stage sv firecrawl twitter s))
     = scrape_events s @ in_turn ''FireCrawl'' firecrawl @ in_turn ''Twitter'' twitter
   \<and> max_pending 0 (in_turn ''FireCrawl'' firecrawl @ in_turn ''Twitter'' twitter) \<le> 1
   \<and> success (stats (snd (scrape_stage sv firecrawl twitter s)))
       + failed (stats (snd (scrape_stage sv firecrawl twitter s)))
     = success (stats s) + failed (stats s) + (length firecrawl + length twitter)
   \<and> success (stats (snd (scrape_stage sv firecrawl twitter (s\<lparr>stats := stats initial\<rparr>))))
       + failed (stats (snd (scrape_stage sv firecrawl twitter (s\<lparr>stats := stats initial\<rparr>))))
     = length firecrawl + length twitter
   \<and> ((success (stats (snd (scrapeSource type source f s))) = success (stats s) + 1
        \<and> failed (stats (snd (scrapeSource type source f s))) = failed (stats s))
      \<or> (success (stats (snd (scrapeSource type source f s))) = success (stats s)
        \<and> failed (stats (snd (scrapeSource type source f s))) = failed (stats s) + 1))"
  using scrapeSource_counters [of type source f s]
    max_pending_one_at_a_time [of "''FireCrawl''" firecrawl "''Twitter''" twitter]
  by (simp add: scrape_stage_loops scrape_loop_calls scrape_loop_events scrape_loop_total
      initial_def)

theorem scrape_stage_counts_witness:
  "scrape_events (snd (scrape_stage demo [[0x66, 0x31], [0x66, 0x32]] [[0x74, 0x31]] initial))
     = [Started ''FireCrawl'' [0x66, 0x31], Settled ''FireCrawl'' [0x66, 0x31],
        Started ''FireCrawl'' [0x66, 0x32], Settled ''FireCrawl'' [0x66, 0x32],
        Started ''Twitter'' [0x74, 0x31], Settled ''Twitter'' [0x74, 0x31]]
   \<and> max_pending 0
        [Started ''FireCrawl'' [0x66, 0x31], Settled ''FireCrawl'' [0x66, 0x31],
         Started ''FireCrawl'' [0x66, 0x32], Settled ''FireCrawl'' [0x66, 0x32],
         Started ''Twitter'' [0x74, 0x31], Settled ''Twitter'' [0x74, 0x31]] = 1
   \<and> calls (snd (scrape_stage demo [[0x66, 0x31], [0x66, 0x32]] [[0x74, 0x31]] initial))
     = [Scrape ''FireCrawl'' [0x66, 0x31], Scrape ''FireCrawl'' [0x66, 0x32],
        Scrape ''Twitter'' [0x74, 0x31]]
   \<and> success (stats (snd (scrape_stage demo [[0x66, 0x31], [0x66, 0x32]] [[0x74, 0x31]] initial))) = 2
   \<and> failed (stats (snd (scrape_stage demo [[0x66, 0x31], [0x66, 0x32]] [[0x74, 0x31]] initial))) = 1"
proof -
  have counters:
    "success (stats (snd (scrape_stage demo [[0x66, 0x31], [0x66, 0x32]] [[0x74, 0x31]] initial))) = 2
     \<and> failed (stats (snd (scrape_stage demo [[0x66, 0x31], [0x66, 0x32]] [[0x74, 0x31]] initial))) = 1"
    by code_simp
  have empty: "calls initial = []" "scrape_events initial = []"
    by (simp_all add: initial_def)
  show ?thesis
    using counters empty
      scrape_stage_counts [of demo "[[0x66, 0x31], [0x66, 0x32]]" "[[0x74, 0x31]]" initial]
    by (simp add: in_turn_def)
qed

lemma scrapeSource_nothing:
  "yields_nothing f source \<Longrightarrow>
     fst (scrapeSource type source f s) = []
     \<and> heap (snd (scrapeSource type source f s)) = heap s"
  by (simp add: yields_nothing_def scrapeSource_def scrape_called_def scrape_settled_def alloc_def bump_success_def bump_failed_def
      record_call_def notify_def split: sum.splits)

lemma scrape_loop_nothing:
  "\<forall>source\<in>set sources. yields_nothing f source \<Longrightarrow>
     fst (scrape_loop type f sources acc s) = acc"
proof (induction sources arbitrary: acc s)
  case Nil
  show ?case by simp
next
  case (Cons source rest)
  obtain cs s' where step: "scrapeSource type source f s = (cs, s')"
    by (cases "scrapeSource type source f s")
  have "cs = []"
    using scrapeSource_nothing [of f source type s] Cons.prems step by simp
  then show ?case
    using Cons.IH [of "acc" s'] Cons.prems step by simp
qed

lemma scrape_loop_nothing_heap:
  "\<forall>source\<in>set sources. yields_nothing f source \<Longrightarrow>
     heap (snd (scrape_loop type f sources acc s)) = heap s"
proof (induction sources arbitrary: acc s)
  case Nil
  show ?case by simp
next
  case (Cons source rest)
  obtain cs s' where step: "scrapeSource type source f s = (cs, s')"
    by (cases "scrapeSource type source f s")
  have "heap s' = heap s"
    using scrapeSource_nothing [of f source type s] Cons.prems step by simp
  then show ?case
    using Cons.IH [of "acc @ cs" s'] Cons.prems step by simp
qed

lemma scrape_stage_nothing:
  assumes "\<forall>source\<in>set firecrawl. yields_nothing (FireCrawlScraper_scrape sv) source"
    and "\<forall>source\<in>set twitter. yields_nothing (TwitterScraper_scrape sv) source"
  shows "fst (scrape_stage sv firecrawl twitter s) = Inr []"
  using assms by (simp add: scrape_stage_loops scrape_loop_nothing)

lemma after_sources_nothing:
  assumes "fst (scrape_stage sv firecrawl twitter s) = Inr []"
  shows "after_sources sv firecrawl twitter s =
           (Inr (), notify Error NoContent
                      ((snd (scrape_stage sv firecrawl twitter s))
                         \<lparr>stats := (stats (snd (scrape_stage sv firecrawl twitter s)))
                                     \<lparr>contents := 0\<rparr>\<rparr>))"
proof -
  obtain s1 where "scrape_stage sv firecrawl twitter s = (Inr [], s1)"
    using assms by (cases "scrape_stage sv firecrawl twitter s") simp
  then show ?thesis
    by (simp add: after_sources_def)
qed

text \<open>
  Claim C3. When every configured source has been tried and none contributed an item
  (each scrape threw or returned an empty array), the run ends without raising: \<open>process\<close>
  returns normally, the last notification is the error-level "no content" one, and the
  only collaborator calls of the run are the balance query, the source list and the
  scrapes; no rank, configuration, summarize, headline, image, upload, render or publish
  call is made, and no scraped object is touched.
\<close>

theorem empty_scrape_ends_run:
  assumes "getCNYBalance sv = Inr balance"
    and "getCronSources sv = Inr (firecrawl, twitter)"
    and "\<forall>source\<in>set firecrawl. yields_nothing (FireCrawlScraper_scrape sv) source"
    and "\<forall>source\<in>set twitter. yields_nothing (TwitterScraper_scrape sv) source"
  shows "fst (process sv s) = Inr ()
    \<and> last (notified (snd (process sv s))) = (Error, NoContent)
    \<and> contents (stats (snd (process sv s))) = 0
    \<and> heap (snd (process sv s)) = heap s
    \<and> calls (snd (process sv s))
        = calls s @ [GetCNYBalance, GetCronSources]
            @ map (Scrape ''FireCrawl'') firecrawl @ map (Scrape ''Twitter'') twitter"
proof -
  define s3 where
    "s3 = record_call GetCronSources
            (if balance < 1.0
             then notify Warning LowBalance (record_call GetCNYBalance (notify Info WorkflowStarted s))
             else record_call GetCNYBalance (notify Info WorkflowStarted s))"
  have try_eq: "process_try sv s = after_sources sv firecrawl twitter s3"
    using assms(1,2) by (simp add: process_try_def s3_def Let_def)
  have none: "fst (scrape_stage sv firecrawl twitter s3) = Inr []"
    using assms(3,4) by (rule scrape_stage_nothing)
  have calls3: "calls s3 = calls s @ [GetCNYBalance, GetCronSources]"
    by (simp add: s3_def record_call_def notify_def)
  have heap3: "heap s3 = heap s"
    by (simp add: s3_def record_call_def notify_def)
  have heap_stage: "heap (snd (scrape_stage sv firecrawl twitter s3)) = heap s3"
    using assms(3,4) by (simp add: scrape_stage_loops scrape_loop_nothing_heap)
  have calls_stage: "calls (snd (scrape_stage sv firecrawl twitter s3))
      = calls s3 @ map (Scrape ''FireCrawl'') firecrawl @ map (Scrape ''Twitter'') twitter"
    by (simp add: scrape_stage_loops scrape_loop_calls)
  have "process sv s =
          (Inr (), notify Error NoContent
                     ((snd (scrape_stage sv firecrawl twitter s3))
                        \<lparr>stats := (stats (snd (scrape_stage sv firecrawl twitter s3)))
                                    \<lparr>contents := 0\<rparr>\<rparr>))"
    by (simp add: process_def try_eq after_sources_nothing [OF none])
  then show ?thesis
    using calls3 heap3 heap_stage calls_stage by (simp add: notify_def)
qed

theorem empty_scrape_ends_run_witness:
  "getCNYBalance quiet = Inr 5
   \<and> getCronSources quiet = Inr ([[0x66, 0x31], [0x66, 0x32]], [[0x74, 0x31]])
   \<and> yields_nothing (FireCrawlScraper_scrape quiet) [0x66, 0x31]
   \<and> yields_nothing (FireCrawlScraper_scrape quiet) [0x66, 0x32]
   \<and> yields_nothing (TwitterScraper_scrape quiet) [0x74, 0x31]
   \<and> fst (process quiet initial) = Inr ()
   \<and> last (notified (snd (process quiet initial))) = (Error, NoContent)
   \<and> calls (snd (process quiet initial))
        = [GetCNYBalance, GetCronSources, Scrape ''FireCrawl'' [0x66, 0x31],
           Scrape ''FireCrawl'' [0x66, 0x32], Scrape ''Twitter'' [0x74, 0x31]]"
proof -
  have h1: "getCNYBalance quiet = Inr 5"
    by (simp add: quiet_def demo_def)
  have h2: "getCronSources quiet = Inr ([[0x66, 0x31], [0x66, 0x32]], [[0x74, 0x31]])"
    by (simp add: quiet_def demo_def)
  have h3: "\<forall>source\<in>set [[0x66, 0x31], [0x66, 0x32]].
              yields_nothing (FireCrawlScraper_scrape quiet) source"
    by (simp add: quiet_def demo_def yields_nothing_def)
  have h4: "\<forall>source\<in>set [[0x74, 0x31]]. yields_nothing (TwitterScraper_scrape quiet) source"
    by (simp add: quiet_def demo_def yields_nothing_def)
  have c0: "calls initial = []"
    by (simp add: initial_def)
  show ?thesis
    using h1 h2 h3 h4 c0 empty_scrape_ends_run [OF h1 h2 h3 h4, of initial] by simp
qed

subsection \<open>Filtering by rank result\<close>

lemma ident_score_update: "ident (h[a := (h ! a)\<lparr>score := v\<rparr>] ! b) = ident (h ! b)"
proof (cases "a < length h")
  case True
  then show ?thesis by (cases "b = a") simp_all
next
  case False
  then have "length h \<le> a" by simp
  then have "h[a := (h ! a)\<lparr>score := v\<rparr>] = h" by (rule list_update_beyond)
  then show ?thesis by simp
qed

lemma filter_loop_kept:
  "fst (filter_loop ranked as h)
     = filter (\<lambda>a. find (\<lambda>r. rank_id r = ident (h ! a)) ranked \<noteq> None) as"
proof (induction as arbitrary: h)
  case Nil
  show ?case by simp
next
  case (Cons a as)
  show ?case
  proof (cases "find (\<lambda>r. rank_id r = ident (h ! a)) ranked")
    case None
    then show ?thesis using Cons.IH [of h] by simp
  next
    case (Some r)
    then show ?thesis
      using Cons.IH [of "h[a := (h ! a)\<lparr>score := Some (rank_score r)\<rparr>]"]
      by (simp add: ident_score_update case_prod_beta)
  qed
qed

lemma filter_loop_length: "length (snd (filter_loop ranked as h)) = length h"
proof (induction as arbitrary: h)
  case Nil
  show ?case by simp
next
  case (Cons a as)
  show ?case
  proof (cases "find (\<lambda>r. rank_id r = ident (h ! a)) ranked")
    case None
    then show ?thesis using Cons.IH [of h] by simp
  next
    case (Some r)
    then show ?thesis
      using Cons.IH [of "h[a := (h ! a)\<lparr>score := Some (rank_score r)\<rparr>]"]
      by (simp add: case_prod_beta)
  qed
qed

lemma filter_loop_heap:
  "b < length h \<Longrightarrow>
     snd (filter_loop ranked as h) ! b = (if b \<in> set as then scored ranked (h ! b) else h ! b)"
proof (induction as arbitrary: h)
  case Nil
  show ?case by simp
next
  case (Cons a as)
  show ?case
  proof (cases "find (\<lambda>r. rank_id r = ident (h ! a)) ranked")
    case None
    then have "scored ranked (h ! a) = h ! a"
      by (simp add: scored_def)
    then show ?thesis
      using Cons.IH [of h] Cons.prems None by auto
  next
    case (Some r)
    let ?h = "h[a := (h ! a)\<lparr>score := Some (rank_score r)\<rparr>]"
    have len: "b < length ?h" using Cons.prems by simp
    have step: "snd (filter_loop ranked (a # as) h) = snd (filter_loop ranked as ?h)"
      using Some by (simp add: case_prod_beta)
    have same: "scored ranked (?h ! b) = scored ranked (h ! b)" if "b \<noteq> a"
      using that by simp
    have at_a: "?h ! a = scored ranked (h ! a)" if "b = a"
      using that Cons.prems Some by (simp add: scored_def)
    have again: "scored ranked (scored ranked (h ! a)) = scored ranked (h ! a)"
      using Some by (simp add: scored_def)
    show ?thesis
    proof (cases "b = a")
      case True
      then show ?thesis
        using Cons.IH [OF len] step at_a again by simp
    next
      case False
      then show ?thesis
        using Cons.IH [OF len] step same by simp
    qed
  qed
qed

subsection \<open>Sorting by score\<close>

lemma mset_sort_insert: "mset (sort_insert h x ys) = add_mset x (mset ys)"
  by (induction ys) simp_all

lemma mset_sort_by_score: "mset (sort_by_score h xs) = mset xs"
  by (induction xs) (simp_all add: mset_sort_insert)

lemma set_sort_by_score: "set (sort_by_score h xs) = set xs"
  using mset_sort_by_score [of h xs] by (metis set_mset_mset)

lemma length_sort_by_score: "length (sort_by_score h xs) = length xs"
  using mset_sort_by_score [of h xs] by (metis size_mset)

lemma distinct_sort_by_score: "distinct (sort_by_score h xs) = distinct xs"
  using mset_sort_by_score [of h xs] by (metis distinct_count_atmost_1 set_mset_mset)

lemma sort_insert_unset: "score (h ! x) = None \<Longrightarrow> sort_insert h x ys = x # ys"
  by (cases ys) (simp_all add: compareFn_def keeps_order_def split: option.splits)

lemma sort_by_score_unset:
  "\<forall>a\<in>set xs. score (h ! a) = None \<Longrightarrow> sort_by_score h xs = xs"
  by (induction xs) (simp_all add: sort_insert_unset)

lemma keeps_order_set:
  "score (h ! x) \<noteq> None \<Longrightarrow> score (h ! y) \<noteq> None \<Longrightarrow>
     keeps_order (compareFn (h ! x) (h ! y)) = not_below h x y"
  by (auto simp: compareFn_def keeps_order_def not_below_def)

lemma sorted_sort_insert:
  assumes "sorted_wrt (not_below h) ys" and "\<forall>a\<in>set (x # ys). score (h ! a) \<noteq> None"
  shows "sorted_wrt (not_below h) (sort_insert h x ys)"
  using assms
proof (induction ys)
  case Nil
  show ?case by simp
next
  case (Cons y ys)
  have k: "keeps_order (compareFn (h ! x) (h ! y)) = not_below h x y"
    using Cons.prems(2) by (simp add: keeps_order_set)
  show ?case
  proof (cases "not_below h x y")
    case True
    have "\<forall>z\<in>set ys. not_below h x z"
      using True Cons.prems(1) by (auto simp: not_below_def)
    then show ?thesis using True k Cons.prems(1) by simp
  next
    case False
    have yx: "not_below h y x" using False by (simp add: not_below_def)
    have "sorted_wrt (not_below h) (sort_insert h x ys)"
      using Cons.IH Cons.prems by simp
    moreover have "\<forall>z\<in>set (sort_insert h x ys). not_below h y z"
    proof
      fix z assume "z \<in> set (sort_insert h x ys)"
      then have "z \<in># mset (sort_insert h x ys)" by simp
      then have "z = x \<or> z \<in> set ys" by (simp add: mset_sort_insert)
      then show "not_below h y z" using yx Cons.prems(1) by auto
    qed
    ultimately show ?thesis using False k by simp
  qed
qed

lemma sorted_sort_by_score:
  "\<forall>a\<in>set xs. score (h ! a) \<noteq> None \<Longrightarrow> sorted_wrt (not_below h) (sort_by_score h xs)"
proof (induction xs)
  case Nil
  show ?case by simp
next
  case (Cons x xs)
  have "sorted_wrt (not_below h) (sort_by_score h xs)"
    using Cons by simp
  moreover have "\<forall>a\<in>set (x # sort_by_score h xs). score (h ! a) \<noteq> None"
    using Cons.prems by (simp add: set_sort_by_score)
  ultimately show ?case
    by (simp add: sorted_sort_insert)
qed

lemma filter_stage_kept:
  assumes "rankedContents \<noteq> []"
  shows "fst (filter_stage rankedContents allContents s)
           = filter (\<lambda>a. ident (heap s ! a) \<in> rank_id ` set rankedContents) allContents"
proof -
  have "(find (\<lambda>r. rank_id r = ident (heap s ! a)) rankedContents \<noteq> None)
          = (ident (heap s ! a) \<in> rank_id ` set rankedContents)" for a
    by (force simp: find_None_iff)
  then show ?thesis
    using assms by (simp add: filter_stage_def case_prod_beta filter_loop_kept)
qed

lemma filter_stage_heap:
  assumes "rankedContents \<noteq> []" and "b < length (heap s)"
  shows "heap (snd (filter_stage rankedContents allContents s)) ! b
           = (if b \<in> set allContents then scored rankedContents (heap s ! b) else heap s ! b)"
  using assms by (simp add: filter_stage_def case_prod_beta filter_loop_heap)

lemma select_stage_ranked:
  assumes "rankContents sv (deref s allContents) = Inr rankedContents"
  shows "select_stage sv allContents s =
     (sort_by_score
        (heap (snd (filter_stage rankedContents allContents
                      (record_call (RankContents (deref s allContents)) s))))
        (fst (filter_stage rankedContents allContents
                (record_call (RankContents (deref s allContents)) s))),
      snd (filter_stage rankedContents allContents
             (record_call (RankContents (deref s allContents)) s)))"
  using assms by (simp add: select_stage_def rank_stage_def case_prod_beta)

lemma heap_record_call: "heap (record_call c s) = heap s"
  by (simp add: record_call_def)

lemma heap_notify: "heap (notify l n s) = heap s"
  by (simp add: notify_def)

text \<open>
  Claim C1. When the ranking returns a non-empty list, the filter is an inner join on the
  identifier: the kept array is the scraped array restricted to the items whose identifier
  some rank result carries (so an item survives if and only if it has a match, and every
  other item is dropped); every kept object has the score of its rank result (the first
  one with its identifier) and is otherwise as scraped; and what the sort returns is the
  kept items again, each exactly once, in descending order of score.
\<close>

theorem rank_filter_inner_join:
  assumes ranked: "rankContents sv (deref s allContents) = Inr rankedContents"
    and ne: "rankedContents \<noteq> []"
    and valid: "\<forall>a\<in>set allContents. a < length (heap s)"
  shows "fst (filter_stage rankedContents allContents s)
           = filter (\<lambda>a. ident (heap s ! a) \<in> rank_id ` set rankedContents) allContents
    \<and> (\<forall>a\<in>set (fst (filter_stage rankedContents allContents s)).
          \<exists>r. find (\<lambda>ranked. rank_id ranked = ident (heap s ! a)) rankedContents = Some r
             \<and> heap (snd (filter_stage rankedContents allContents s)) ! a
                 = (heap s ! a)\<lparr>score := Some (rank_score r)\<rparr>)
    \<and> mset (fst (select_stage sv allContents s))
         = mset (filter (\<lambda>a. ident (heap s ! a) \<in> rank_id ` set rankedContents) allContents)
    \<and> (\<forall>a\<in>set (fst (select_stage sv allContents s)).
          \<exists>r. find (\<lambda>ranked. rank_id ranked = ident (heap s ! a)) rankedContents = Some r
             \<and> heap (snd (select_stage sv allContents s)) ! a
                 = (heap s ! a)\<lparr>score := Some (rank_score r)\<rparr>)
    \<and> sorted_wrt (not_below (heap (snd (select_stage sv allContents s))))
         (fst (select_stage sv allContents s))"
proof -
  let ?P = "\<lambda>a. ident (heap s ! a) \<in> rank_id ` set rankedContents"
  have scored_at: "\<exists>r. find (\<lambda>ranked. rank_id ranked = ident (heap t ! a)) rankedContents = Some r
        \<and> heap (snd (filter_stage rankedContents allContents t)) ! a
            = (heap t ! a)\<lparr>score := Some (rank_score r)\<rparr>"
    if a: "a \<in> set (fst (filter_stage rankedContents allContents t))" and t: "heap t = heap s"
    for a t
  proof -
    have in_all: "a \<in> set allContents" and match: "ident (heap t ! a) \<in> rank_id ` set rankedContents"
      using a by (simp_all add: filter_stage_kept [OF ne])
    obtain r where r: "find (\<lambda>ranked. rank_id ranked = ident (heap t ! a)) rankedContents = Some r"
      using match by (cases "find (\<lambda>ranked. rank_id ranked = ident (heap t ! a)) rankedContents")
        (auto simp: find_None_iff)
    have "a < length (heap t)" using in_all valid t by simp
    then have "heap (snd (filter_stage rankedContents allContents t)) ! a
        = scored rankedContents (heap t ! a)"
      using in_all by (simp add: filter_stage_heap [OF ne])
    then show ?thesis using r by (simp add: scored_def)
  qed
  let ?s1 = "record_call (RankContents (deref s allContents)) s"
  have h1: "heap ?s1 = heap s" by (rule heap_record_call)
  have sel_fst: "fst (select_stage sv allContents s)
      = sort_by_score (heap (snd (filter_stage rankedContents allContents ?s1)))
          (filter ?P allContents)"
    by (simp add: select_stage_ranked [OF ranked] filter_stage_kept [OF ne] h1)
  have sel_snd: "snd (select_stage sv allContents s)
      = snd (filter_stage rankedContents allContents ?s1)"
    by (simp add: select_stage_ranked [OF ranked])
  have kept1: "fst (filter_stage rankedContents allContents ?s1) = filter ?P allContents"
    by (simp add: filter_stage_kept [OF ne] h1)
  have c1: "fst (filter_stage rankedContents allContents s) = filter ?P allContents"
    by (rule filter_stage_kept [OF ne])
  have c2: "\<forall>a\<in>set (fst (filter_stage rankedContents allContents s)).
          \<exists>r. find (\<lambda>ranked. rank_id ranked = ident (heap s ! a)) rankedContents = Some r
             \<and> heap (snd (filter_stage rankedContents allContents s)) ! a
                 = (heap s ! a)\<lparr>score := Some (rank_score r)\<rparr>"
    using scored_at [of _ s] by simp
  have c3: "mset (fst (select_stage sv allContents s)) = mset (filter ?P allContents)"
    by (simp add: sel_fst mset_sort_by_score)
  have c4: "\<forall>a\<in>set (fst (select_stage sv allContents s)).
          \<exists>r. find (\<lambda>ranked. rank_id ranked = ident (heap s ! a)) rankedContents = Some r
             \<and> heap (snd (select_stage sv allContents s)) ! a
                 = (heap s ! a)\<lparr>score := Some (rank_score r)\<rparr>"
  proof
    fix a assume "a \<in> set (fst (select_stage sv allContents s))"
    then have "a \<in> set (fst (filter_stage rankedContents allContents ?s1))"
      by (simp add: sel_fst kept1 set_sort_by_score)
    then show "\<exists>r. find (\<lambda>ranked. rank_id ranked = ident (heap s ! a)) rankedContents = Some r
             \<and> heap (snd (select_stage sv allContents s)) ! a
                 = (heap s ! a)\<lparr>score := Some (rank_score r)\<rparr>"
      using scored_at [of a ?s1] h1 by (simp add: sel_snd)
  qed
  have "\<forall>a\<in>set (filter ?P allContents).
          score (heap (snd (filter_stage rankedContents allContents ?s1)) ! a) \<noteq> None"
  proof
    fix a assume "a \<in> set (filter ?P allContents)"
    then have "a \<in> set (fst (filter_stage rankedContents allContents ?s1))"
      by (simp add: kept1)
    from scored_at [OF this h1]
    show "score (heap (snd (filter_stage rankedContents allContents ?s1)) ! a) \<noteq> None"
      by auto
  qed
  then have c5: "sorted_wrt (not_below (heap (snd (select_stage sv allContents s))))
         (fst (select_stage sv allContents s))"
    by (simp only: sel_fst sel_snd sorted_sort_by_score)
  show ?thesis
    using c1 c2 c3 c4 c5 by blast
qed

theorem rank_filter_inner_join_witness:
  "rankContents demo (deref scraped [0, 1, 2])
     = Inr [\<lparr>rank_id = [0x41], rank_score = 0.9\<rparr>, \<lparr>rank_id = [0x42], rank_score = 0.4\<rparr>]
   \<and> [\<lparr>rank_id = [0x41], rank_score = 0.9\<rparr>, \<lparr>rank_id = [0x42], rank_score = 0.4\<rparr>] \<noteq> []
   \<and> length (heap scraped) = 3
   \<and> map (\<lambda>a. ident (heap scraped ! a)) [0, 1, 2] = [[0x43], [0x42], [0x41]]
   \<and> fst (filter_stage [\<lparr>rank_id = [0x41], rank_score = 0.9\<rparr>, \<lparr>rank_id = [0x42], rank_score = 0.4\<rparr>]
            [0, 1, 2] scraped) = [1, 2]
   \<and> fst (select_stage demo [0, 1, 2] scraped) = [2, 1]
   \<and> map (\<lambda>a. score (heap (snd (select_stage demo [0, 1, 2] scraped)) ! a)) [2, 1]
        = [Some 0.9, Some 0.4]"
proof -
  let ?ranked = "[\<lparr>rank_id = [0x41], rank_score = 0.9\<rparr>, \<lparr>rank_id = [0x42], rank_score = 0.4\<rparr>]"
  have h1: "rankContents demo (deref scraped [0, 1, 2]) = Inr ?ranked"
    by (simp add: demo_def)
  have h2: "?ranked \<noteq> []"
    by simp
  have h3: "\<forall>a\<in>set [0, 1, 2]. a < length (heap scraped)"
    by (simp add: scraped_def initial_def)
  have len: "length (heap scraped) = 3"
    by (simp add: scraped_def initial_def)
  have ids: "map (\<lambda>a. ident (heap scraped ! a)) [0, 1, 2] = [[0x43], [0x42], [0x41]]"
    by (simp add: scraped_def initial_def item_def)
  have sel: "fst (select_stage demo [0, 1, 2] scraped) = [2, 1]
     \<and> map (\<lambda>a. score (heap (snd (select_stage demo [0, 1, 2] scraped)) ! a)) [2, 1]
        = [Some 0.9, Some 0.4]"
    by code_simp
  have kept: "filter (\<lambda>a. ident (heap scraped ! a) \<in> rank_id ` set ?ranked) [0, 1, 2] = [1, 2]"
    by (simp add: scraped_def initial_def item_def)
  show ?thesis
    using h1 h2 len ids sel kept rank_filter_inner_join [OF h1 h2 h3] by simp
qed

subsection \<open>The logs only grow\<close>

lemma extends_refl: "extends s s"
  by (simp add: extends_def)

lemma extends_trans: "extends s t \<Longrightarrow> extends t u \<Longrightarrow> extends s u"
  by (auto simp: extends_def)

lemma extends_record_call: "extends s (record_call c s)"
  by (simp add: extends_def record_call_def)

lemma extends_notify: "extends s (notify l n s)"
  by (simp add: extends_def notify_def)

lemma extends_heap: "extends s t \<Longrightarrow> extends s (t\<lparr>heap := h\<rparr>)"
  by (simp add: extends_def)

lemma extends_stats: "extends s t \<Longrightarrow> extends s (t\<lparr>stats := st\<rparr>)"
  by (simp add: extends_def)

lemma extends_calls: "extends s t \<Longrightarrow> c \<in> set (calls s) \<Longrightarrow> c \<in> set (calls t)"
  by (auto simp: extends_def prefix_def)

lemma extends_scrapeSource: "extends s (snd (scrapeSource type source f s))"
  by (simp add: extends_def scrapeSource_def scrape_called_def scrape_settled_def alloc_def bump_success_def bump_failed_def
      record_call_def notify_def split: sum.splits)

lemma extends_scrape_loop: "extends s (snd (scrape_loop type f sources acc s))"
proof (induction sources arbitrary: acc s)
  case Nil
  show ?case by (simp add: extends_refl)
next
  case (Cons source rest)
  have "extends (snd (scrapeSource type source f s))
          (snd (scrape_loop type f rest (acc @ fst (scrapeSource type source f s))
                 (snd (scrapeSource type source f s))))"
    by (rule Cons.IH)
  then show ?case
    using extends_trans [OF extends_scrapeSource] by (simp add: case_prod_beta)
qed

lemma extends_scrape_stage: "extends s (snd (scrape_stage sv firecrawl twitter s))"
  using extends_trans [OF extends_scrape_loop extends_scrape_loop]
  by (simp add: scrape_stage_loops)

lemma extends_rank_stage: "extends s (snd (rank_stage sv allContents s))"
  by (simp add: extends_def rank_stage_def record_call_def notify_def split: sum.splits)

lemma extends_filter_stage: "extends s (snd (filter_stage ranked allContents s))"
  by (simp add: extends_def filter_stage_def case_prod_beta)

lemma extends_select_stage: "extends s (snd (select_stage sv allContents s))"
  using extends_trans [OF extends_rank_stage extends_filter_stage]
  by (simp add: select_stage_def case_prod_beta)

lemma extends_resume: "extends s (processContent_resume a outcome s)"
  by (simp add: extends_def processContent_resume_def notify_def Let_def split: sum.splits)

lemma extends_fold_resume:
  "extends s (fold (\<lambda>(a, outcome). processContent_resume a outcome) pairs s)"
proof (induction pairs arbitrary: s)
  case Nil
  show ?case by (simp add: extends_refl)
next
  case (Cons p pairs)
  show ?case
    using extends_trans [OF extends_resume Cons.IH] by (simp add: case_prod_beta)
qed

lemma extends_fold_record: "extends s (fold (\<lambda>a. record_call (f a)) as s)"
proof (induction as arbitrary: s)
  case Nil
  show ?case by (simp add: extends_refl)
next
  case (Cons a as)
  show ?case
    using extends_trans [OF extends_record_call Cons.IH] by simp
qed

lemma extends_process_batch: "extends s (process_batch sv batch s)"
  unfolding process_batch_def
  by (rule extends_trans [OF extends_fold_record extends_fold_resume])

lemma extends_enrich_loop: "extends s (enrich_loop sv i topContents s)"
proof (induction sv i topContents s rule: enrich_loop.induct)
  case (1 sv i topContents s)
  show ?case
  proof (cases "i < length topContents")
    case True
    then show ?thesis
      using extends_trans [OF extends_process_batch "1.IH"]
      by (subst enrich_loop.simps) simp
  next
    case False
    then show ?thesis by (subst enrich_loop.simps) (simp add: extends_refl)
  qed
qed

lemma extends_enrich_stage: "extends s (enrich_stage sv topContents s)"
  by (simp add: enrich_stage_def extends_enrich_loop)

lemma extends_report_stage: "extends s (report_stage totalSources status s)"
  by (simp add: report_stage_def Let_def extends_notify)

lemma headline_stage_calls:
  "calls (snd (headline_stage sv allContents s))
     = calls s @ [GenerateTitle (joined_titles s allContents)]"
  by (simp add: headline_stage_def record_call_def split: sum.splits)

lemma extends_headline_stage: "extends s (snd (headline_stage sv allContents s))"
  by (simp add: extends_def headline_stage_def record_call_def split: sum.splits)

lemma extends_cover_stage: "extends s (snd (cover_stage sv summaryTitle s))"
  by (simp add: extends_def cover_stage_def record_call_def Let_def
      split: sum.splits option.splits)

lemma extends_ship_stage:
  "extends s (snd (ship_stage sv totalSources templateData summaryTitle imageUrl s))"
  by (simp add: extends_def ship_stage_def record_call_def report_stage_def notify_def Let_def
      prefix_def split: sum.splits)

lemma extends_publish_stage:
  "extends s (snd (publish_stage sv totalSources allContents topContents s))"
proof -
  obtain r1 s1 where h: "headline_stage sv allContents s = (r1, s1)"
    by (cases "headline_stage sv allContents s")
  have e1: "extends s s1"
    using extends_headline_stage [of s sv allContents] h by simp
  show ?thesis
  proof (cases r1)
    case (Inl error)
    then show ?thesis using h e1 by (simp add: publish_stage_def)
  next
    case (Inr summaryTitle)
    obtain r2 s2 where c: "cover_stage sv summaryTitle s1 = (r2, s2)"
      by (cases "cover_stage sv summaryTitle s1")
    have e2: "extends s s2"
      using extends_trans [OF e1 extends_cover_stage [of s1 sv summaryTitle]] c by simp
    show ?thesis
    proof (cases r2)
      case (Inl error)
      then show ?thesis using h Inr c e2 by (simp add: publish_stage_def)
    next
      case (Inr imageUrl)
      then show ?thesis
        using h \<open>r1 = Inr summaryTitle\<close> c extends_trans [OF e2 extends_ship_stage]
        by (simp add: publish_stage_def)
    qed
  qed
qed

lemma publish_stage_headline_call:
  "GenerateTitle (joined_titles s allContents)
     \<in> set (calls (snd (publish_stage sv totalSources allContents topContents s)))"
proof -
  obtain r1 s1 where h: "headline_stage sv allContents s = (r1, s1)"
    by (cases "headline_stage sv allContents s")
  have in1: "GenerateTitle (joined_titles s allContents) \<in> set (calls s1)"
    using headline_stage_calls [of sv allContents s] h by simp
  show ?thesis
  proof (cases r1)
    case (Inl error)
    then show ?thesis using h in1 by (simp add: publish_stage_def)
  next
    case (Inr summaryTitle)
    obtain r2 s2 where c: "cover_stage sv summaryTitle s1 = (r2, s2)"
      by (cases "cover_stage sv summaryTitle s1")
    have in2: "GenerateTitle (joined_titles s allContents) \<in> set (calls s2)"
      using extends_calls [OF extends_cover_stage [of s1 sv summaryTitle] in1] c by simp
    show ?thesis
    proof (cases r2)
      case (Inl error)
      then show ?thesis using h Inr c in2 by (simp add: publish_stage_def)
    next
      case (Inr imageUrl)
      then show ?thesis
        using h \<open>r1 = Inr summaryTitle\<close> c extends_calls [OF extends_ship_stage in2]
        by (simp add: publish_stage_def)
    qed
  qed
qed

subsection \<open>Enrichment writes through the references\<close>

lemma heap_resume:
  "heap (processContent_resume a outcome s)
     = (heap s)[a := (case outcome of Inr summary \<Rightarrow> overwrite summary (heap s ! a)
                                    | Inl error \<Rightarrow> fallback (heap s ! a))]"
  by (simp add: processContent_resume_def notify_def Let_def split: sum.splits)

lemma heap_fold_record: "heap (fold (\<lambda>a. record_call (f a)) as s) = heap s"
  by (induction as arbitrary: s) (simp_all add: heap_record_call)

lemma heap_fold_resume:
  assumes "distinct as"
    and "\<forall>a\<in>set as. heap t ! a = h0 ! a"
    and "b < length (heap t)"
  shows "heap (fold (\<lambda>(a, outcome). processContent_resume a outcome)
                 (zip as (map (\<lambda>a. summarize sv (h0 ! a)) as)) t) ! b
           = (if b \<in> set as then enriched sv (h0 ! b) else heap t ! b)
         \<and> length (heap (fold (\<lambda>(a, outcome). processContent_resume a outcome)
                 (zip as (map (\<lambda>a. summarize sv (h0 ! a)) as)) t)) = length (heap t)"
  using assms
proof (induction as arbitrary: t)
  case Nil
  show ?case by simp
next
  case (Cons a as)
  let ?t = "processContent_resume a (summarize sv (h0 ! a)) t"
  have at_a: "heap t ! a = h0 ! a" using Cons.prems(2) by simp
  have ht: "heap ?t = (heap t)[a := enriched sv (h0 ! a)]"
    by (simp add: heap_resume at_a enriched_def split: sum.splits)
  have d: "distinct as" and na: "a \<notin> set as" using Cons.prems(1) by simp_all
  have agree: "\<forall>x\<in>set as. heap ?t ! x = h0 ! x"
  proof
    fix x assume x: "x \<in> set as"
    then have "a \<noteq> x" using na by auto
    then show "heap ?t ! x = h0 ! x" using Cons.prems(2) x by (simp add: ht)
  qed
  have len: "b < length (heap ?t)" using Cons.prems(3) by (simp add: ht)
  have ih: "heap (fold (\<lambda>(a, outcome). processContent_resume a outcome)
                 (zip as (map (\<lambda>a. summarize sv (h0 ! a)) as)) ?t) ! b
           = (if b \<in> set as then enriched sv (h0 ! b) else heap ?t ! b)
         \<and> length (heap (fold (\<lambda>(a, outcome). processContent_resume a outcome)
                 (zip as (map (\<lambda>a. summarize sv (h0 ! a)) as)) ?t)) = length (heap ?t)"
    by (rule Cons.IH [OF d agree len])
  show ?case
  proof (cases "b = a")
    case True
    then show ?thesis using ih na Cons.prems(3) by (simp add: ht)
  next
    case False
    then show ?thesis using ih by (simp add: ht)
  qed
qed

lemma heap_process_batch:
  assumes "distinct batch" and "b < length (heap s)"
  shows "heap (process_batch sv batch s) ! b
           = (if b \<in> set batch then enriched sv (heap s ! b) else heap s ! b)"
    and "length (heap (process_batch sv batch s)) = length (heap s)"
  using heap_fold_resume [of batch "fold (\<lambda>a. record_call (Summarize (heap s ! a))) batch s"
      "heap s" b sv] assms
  by (simp_all add: process_batch_def heap_fold_record)

lemma length_heap_process_batch:
  "length (heap (process_batch sv batch s)) = length (heap s)"
proof -
  have "length (heap (fold (\<lambda>(a, outcome). processContent_resume a outcome) pairs t))
          = length (heap t)" for pairs t
    by (induction pairs arbitrary: t) (simp_all add: case_prod_beta heap_resume)
  then show ?thesis
    by (simp add: process_batch_def heap_fold_record)
qed

lemma heap_enrich_loop:
  assumes "distinct topContents" and "b < length (heap s)"
  shows "heap (enrich_loop sv i topContents s) ! b
           = (if b \<in> set (drop i topContents) then enriched sv (heap s ! b) else heap s ! b)"
  using assms
proof (induction sv i topContents s rule: enrich_loop.induct)
  case (1 sv i topContents s)
  show ?case
  proof (cases "i < length topContents")
    case False
    then show ?thesis by (subst enrich_loop.simps) simp
  next
    case True
    let ?batch = "take batchSize (drop i topContents)"
    let ?s = "process_batch sv ?batch s"
    have db: "distinct ?batch" using "1.prems"(1) by simp
    have len: "b < length (heap ?s)"
      using "1.prems"(2) by (simp add: length_heap_process_batch)
    have ih: "heap (enrich_loop sv (i + batchSize) topContents ?s) ! b
        = (if b \<in> set (drop (i + batchSize) topContents) then enriched sv (heap ?s ! b)
           else heap ?s ! b)"
      using "1.IH" [OF True "1.prems"(1) len] .
    have batch: "heap ?s ! b = (if b \<in> set ?batch then enriched sv (heap s ! b) else heap s ! b)"
      by (rule heap_process_batch(1) [OF db "1.prems"(2)])
    have parts: "drop i topContents = ?batch @ drop (i + batchSize) topContents"
      by (metis append_take_drop_id drop_drop add.commute)
    have "distinct (?batch @ drop (i + batchSize) topContents)"
      using "1.prems"(1) parts by (metis distinct_drop)
    then have disj: "set ?batch \<inter> set (drop (i + batchSize) topContents) = {}"
      by simp
    have mem: "b \<in> set (drop i topContents)
        \<longleftrightarrow> b \<in> set ?batch \<or> b \<in> set (drop (i + batchSize) topContents)"
      by (subst parts) simp
    have "enrich_loop sv i topContents s = enrich_loop sv (i + batchSize) topContents ?s"
      using True by (subst enrich_loop.simps) simp
    then show ?thesis
      using ih batch disj mem by auto
  qed
qed

lemma heap_enrich_stage:
  assumes "distinct topContents" and "b < length (heap s)"
  shows "heap (enrich_stage sv topContents s) ! b
           = (if b \<in> set topContents then enriched sv (heap s ! b) else heap s ! b)"
  using heap_enrich_loop [OF assms, of sv 0] by (simp add: enrich_stage_def)

lemma slice0_take: "slice0 xs n = take (length (slice0 xs n)) xs"
  by (simp add: slice0_def Let_def)

lemma slice0_undefined: "slice0 xs Undefined = xs"
  by (simp add: slice0_def)

lemma length_heap_enrich_loop:
  "length (heap (enrich_loop sv i topContents s)) = length (heap s)"
proof (induction sv i topContents s rule: enrich_loop.induct)
  case (1 sv i topContents s)
  show ?case
  proof (cases "i < length topContents")
    case True
    then show ?thesis
      using "1.IH" by (subst enrich_loop.simps) (simp add: length_heap_process_batch)
  next
    case False
    then show ?thesis by (subst enrich_loop.simps) simp
  qed
qed

lemma length_heap_enrich_stage:
  "length (heap (enrich_stage sv topContents s)) = length (heap s)"
  by (simp add: enrich_stage_def length_heap_enrich_loop)

lemma processContent_failed:
  assumes "summarize sv (heap s ! x) = Inl error"
  shows "processContent sv x s =
           (notify Warning (ContentFailed (ident (heap s ! x)))
              (record_call (Summarize (heap s ! x)) s))
           \<lparr>heap := (heap s)[x := fallback (heap s ! x)]\<rparr>"
  using assms
  by (simp add: processContent_def processContent_resume_def record_call_def notify_def)

lemma after_scrape_config_call:
  "ConfigGet ''ARTICLE_NUM'' \<in> set (calls (snd (after_scrape sv totalSources allContents s)))"
proof -
  obtain ordered s1 where sel: "select_stage sv allContents s = (ordered, s1)"
    by (cases "select_stage sv allContents s")
  let ?s2 = "record_call (ConfigGet ''ARTICLE_NUM'') s1"
  have in2: "ConfigGet ''ARTICLE_NUM'' \<in> set (calls ?s2)"
    by (simp add: record_call_def)
  show ?thesis
  proof (cases "config_get sv ''ARTICLE_NUM''")
    case (Inl error)
    then show ?thesis using sel in2 by (simp add: after_scrape_def)
  next
    case (Inr n)
    have "extends ?s2
            (snd (publish_stage sv totalSources ordered (slice0 ordered n)
                   (enrich_stage sv (slice0 ordered n) ?s2)))"
      by (rule extends_trans [OF extends_enrich_stage extends_publish_stage])
    then show ?thesis
      using sel Inr extends_calls [OF _ in2] by (simp add: after_scrape_def Let_def)
  qed
qed

subsection \<open>A failed enrichment\<close>

text \<open>
  Claim C2. When \<open>summarize\<close> throws for an item \<open>x\<close> of the list being enriched, the
  failure stays with \<open>x\<close>: \<open>processContent\<close> sends a warning and writes the fallbacks, so
  after the stage the title of \<open>x\<close> is its old title, or the "untitled" placeholder if
  that was empty; its body is the old body, or the "processing failed" placeholder if
  that was empty; its keywords are the old ones, or the empty list if they were unset.
  Every other item of the list is enriched as if nothing had failed, no object leaves the
  store, \<open>x\<close> is among the records handed to the renderer, and the run goes on to ask for
  the headline. (The stage has no way to throw: \<open>enrich_stage\<close> returns a state. The list
  a run enriches has no address twice and only addresses of the store:
  \<open>run_lists_wellformed\<close>.)
\<close>

theorem summarize_failure_isolated:
  assumes "distinct topContents"
    and "\<forall>a\<in>set topContents. a < length (heap s)"
    and "x \<in> set topContents"
    and "summarize sv (heap s ! x) = Inl error"
  shows "processContent sv x s =
           (notify Warning (ContentFailed (ident (heap s ! x)))
              (record_call (Summarize (heap s ! x)) s))
           \<lparr>heap := (heap s)[x := fallback (heap s ! x)]\<rparr>
    \<and> heap (enrich_stage sv topContents s) ! x = fallback (heap s ! x)
    \<and> title (heap (enrich_stage sv topContents s) ! x)
        = (if title (heap s ! x) = [] then untitled else title (heap s ! x))
    \<and> content (heap (enrich_stage sv topContents s) ! x)
        = (if content (heap s ! x) = [] then processing_failed else content (heap s ! x))
    \<and> keyword_list (metadata (heap (enrich_stage sv topContents s) ! x))
        = (case keyword_list (metadata (heap s ! x)) of None \<Rightarrow> Some [] | Some ks \<Rightarrow> Some ks)
    \<and> (\<forall>b\<in>set topContents. b \<noteq> x \<longrightarrow>
          heap (enrich_stage sv topContents s) ! b = enriched sv (heap s ! b))
    \<and> length (heap (enrich_stage sv topContents s)) = length (heap s)
    \<and> template_of (fallback (heap s ! x))
        \<in> set (map template_of (deref (enrich_stage sv topContents s) topContents))
    \<and> GenerateTitle (joined_titles (enrich_stage sv topContents s) allContents)
        \<in> set (calls (snd (publish_stage sv totalSources allContents topContents
                             (enrich_stage sv topContents s))))"
proof -
  have at: "heap (enrich_stage sv topContents s) ! b = enriched sv (heap s ! b)"
    if "b \<in> set topContents" for b
    using that assms(2) heap_enrich_stage [OF assms(1), of b s sv] by simp
  have fb: "enriched sv (heap s ! x) = fallback (heap s ! x)"
    using assms(4) by (simp add: enriched_def)
  have x: "heap (enrich_stage sv topContents s) ! x = fallback (heap s ! x)"
    using at [OF assms(3)] fb by simp
  have "heap (enrich_stage sv topContents s) ! x
          \<in> set (deref (enrich_stage sv topContents s) topContents)"
    using assms(3) by (simp add: deref_def)
  then have tmpl: "template_of (fallback (heap s ! x))
        \<in> set (map template_of (deref (enrich_stage sv topContents s) topContents))"
    using x by (metis image_eqI set_map)
  show ?thesis
    using processContent_failed [OF assms(4)] x at tmpl
    by (simp add: fallback_def length_heap_enrich_stage publish_stage_headline_call)
qed

theorem summarize_failure_isolated_witness:
  "distinct [2, 1 :: nat] \<and> length (heap scraped) = 3 \<and> 1 \<in> set [2, 1 :: nat]
   \<and> summarize demo (heap scraped ! 1) = Inl (Thrown [0x71])
   \<and> title (heap scraped ! 1) = []
   \<and> title (heap (enrich_stage demo [2, 1] scraped) ! 1) = untitled
   \<and> content (heap (enrich_stage demo [2, 1] scraped) ! 1) = processing_failed
   \<and> keyword_list (metadata (heap (enrich_stage demo [2, 1] scraped) ! 1)) = Some []
   \<and> ident (heap (enrich_stage demo [2, 1] scraped) ! 1) = [0x42]
   \<and> title (heap (enrich_stage demo [2, 1] scraped) ! 2) = [0x53]"
proof -
  have h1: "distinct [2, 1 :: nat]" by simp
  have h2: "\<forall>a\<in>set [2, 1]. a < length (heap scraped)"
    by (simp add: scraped_def initial_def)
  have h3: "1 \<in> set [2, 1 :: nat]" by simp
  have len: "length (heap scraped) = 3"
    by (simp add: scraped_def initial_def)
  have h4: "summarize demo (heap scraped ! 1) = Inl (Thrown [0x71])"
    by (simp add: demo_def scraped_def initial_def item_def)
  have b: "heap scraped ! 1 = item [0x42] []" and a: "heap scraped ! 2 = item [0x41] [0x61]"
    by (simp_all add: scraped_def initial_def)
  have ea: "enriched demo (item [0x41] [0x61]) = overwrite \<lparr>summary_title = [0x53],
      summary_content = [0x54], summary_keywords = []\<rparr> (item [0x41] [0x61])"
    by (simp add: enriched_def demo_def item_def)
  show ?thesis
    using h1 len h3 h4 summarize_failure_isolated [OF h1 h2 h3 h4] b a ea
    by (simp add: item_def overwrite_def fallback_def)
qed

subsection \<open>A failed ranking\<close>

lemma select_stage_rank_failed:
  assumes "rankContents sv (deref s allContents) = Inl error"
  shows "select_stage sv allContents s =
           (sort_by_score (heap s) allContents,
            notify Error RankFailed (record_call (RankContents (deref s allContents)) s))"
  using assms
  by (simp add: select_stage_def rank_stage_def filter_stage_def heap_notify heap_record_call)

lemma after_scrape_notified:
  assumes "select_stage sv allContents s = (ordered, s1)"
  shows "prefix (notified s1) (notified (snd (after_scrape sv totalSources allContents s)))"
proof (cases "config_get sv ''ARTICLE_NUM''")
  case (Inl error)
  then show ?thesis using assms by (simp add: after_scrape_def record_call_def)
next
  case (Inr n)
  let ?s2 = "record_call (ConfigGet ''ARTICLE_NUM'') s1"
  have "extends s1
          (snd (publish_stage sv totalSources ordered (slice0 ordered n)
                 (enrich_stage sv (slice0 ordered n) ?s2)))"
    by (rule extends_trans [OF extends_record_call
          extends_trans [OF extends_enrich_stage extends_publish_stage]])
  then show ?thesis
    using assms Inr by (simp add: after_scrape_def Let_def extends_def)
qed

text \<open>
  Claim C4. When \<open>rankContents\<close> throws, the stage absorbs it: an error notification is
  sent, the rank-result list is empty, and the run goes on to the truncation (the
  configuration is read). No object is written and no item is dropped: what enters the
  truncation is the scraped array sorted by the scores the items already had, and when
  those scores are unset, as they are for freshly scraped items, it is the scraped array
  itself, in its order.
\<close>

theorem rank_failure_keeps_all_items:
  assumes "rankContents sv (deref s allContents) = Inl error"
  shows "rank_stage sv allContents s =
           ([], notify Error RankFailed (record_call (RankContents (deref s allContents)) s))
    \<and> fst (select_stage sv allContents s) = sort_by_score (heap s) allContents
    \<and> mset (fst (select_stage sv allContents s)) = mset allContents
    \<and> heap (snd (select_stage sv allContents s)) = heap s
    \<and> ((\<forall>a\<in>set allContents. score (heap s ! a) = None) \<longrightarrow>
          fst (select_stage sv allContents s) = allContents)
    \<and> (Error, RankFailed) \<in> set (notified (snd (after_scrape sv totalSources allContents s)))
    \<and> ConfigGet ''ARTICLE_NUM''
         \<in> set (calls (snd (after_scrape sv totalSources allContents s)))"
proof -
  let ?s1 = "notify Error RankFailed (record_call (RankContents (deref s allContents)) s)"
  have sel: "select_stage sv allContents s = (sort_by_score (heap s) allContents, ?s1)"
    by (rule select_stage_rank_failed [OF assms])
  have "(Error, RankFailed) \<in> set (notified ?s1)"
    by (simp add: notify_def)
  then have sent: "(Error, RankFailed)
      \<in> set (notified (snd (after_scrape sv totalSources allContents s)))"
    using after_scrape_notified [OF sel, of totalSources] by (auto simp: prefix_def)
  show ?thesis
    using assms sel sent
    by (simp add: rank_stage_def mset_sort_by_score sort_by_score_unset heap_notify
        heap_record_call after_scrape_config_call)
qed

theorem rank_failure_keeps_all_items_witness:
  "rankContents (demo\<lparr>rankContents := (\<lambda>cs. Inl (Thrown [0x71]))\<rparr>) (deref scraped [0, 1, 2])
     = Inl (Thrown [0x71])
   \<and> map (\<lambda>a. score (heap scraped ! a)) [0, 1, 2] = [None, None, None]
   \<and> fst (select_stage (demo\<lparr>rankContents := (\<lambda>cs. Inl (Thrown [0x71]))\<rparr>) [0, 1, 2] scraped)
       = [0, 1, 2]
   \<and> heap (snd (select_stage (demo\<lparr>rankContents := (\<lambda>cs. Inl (Thrown [0x71]))\<rparr>)
                  [0, 1, 2] scraped)) = heap scraped"
proof -
  let ?sv = "demo\<lparr>rankContents := (\<lambda>cs. Inl (Thrown [0x71]))\<rparr>"
  have h1: "rankContents ?sv (deref scraped [0, 1, 2]) = Inl (Thrown [0x71])"
    by simp
  have h2: "\<forall>a\<in>set [0, 1, 2]. score (heap scraped ! a) = None"
    by (simp add: scraped_def initial_def item_def)
  note run = rank_failure_keeps_all_items [OF h1, where totalSources = 3]
  have same: "fst (select_stage ?sv [0, 1, 2] scraped) = [0, 1, 2]"
    using run h2 by blast
  have store: "heap (snd (select_stage ?sv [0, 1, 2] scraped)) = heap scraped"
    using run by blast
  have unset: "map (\<lambda>a. score (heap scraped ! a)) [0, 1, 2] = [None, None, None]"
    by (simp add: scraped_def initial_def item_def)
  show ?thesis
    using h1 unset same store by blast
qed

subsection \<open>Scraped objects are new and distinct\<close>

lemma scrapeSource_fresh:
  "set (fst (scrapeSource type source f s))
     = {length (heap s) ..< length (heap (snd (scrapeSource type source f s)))}
   \<and> distinct (fst (scrapeSource type source f s))
   \<and> length (heap s) \<le> length (heap (snd (scrapeSource type source f s)))"
  by (simp add: scrapeSource_def scrape_called_def scrape_settled_def alloc_def bump_success_def bump_failed_def record_call_def
      notify_def split: sum.splits)

lemma scrape_loop_fresh:
  assumes "distinct acc" and "\<forall>a\<in>set acc. a < length (heap s)"
  shows "distinct (fst (scrape_loop type f sources acc s))
    \<and> (\<forall>a\<in>set (fst (scrape_loop type f sources acc s)).
          a < length (heap (snd (scrape_loop type f sources acc s))))"
  using assms
proof (induction sources arbitrary: acc s)
  case Nil
  then show ?case by simp
next
  case (Cons source rest)
  obtain cs s' where step: "scrapeSource type source f s = (cs, s')"
    by (cases "scrapeSource type source f s")
  have fresh: "set cs = {length (heap s) ..< length (heap s')}" "distinct cs"
    "length (heap s) \<le> length (heap s')"
    using scrapeSource_fresh [of type source f s] step by simp_all
  have d: "distinct (acc @ cs)"
    using Cons.prems fresh by auto
  have v: "\<forall>a\<in>set (acc @ cs). a < length (heap s')"
    using Cons.prems fresh by auto
  show ?case
    using Cons.IH [OF d v] step by simp
qed

lemma scrape_stage_fresh:
  assumes "scrape_stage sv firecrawl twitter s = (Inr allContents, s1)"
  shows "distinct allContents \<and> (\<forall>a\<in>set allContents. a < length (heap s1))"
proof -
  let ?l1 = "scrape_loop ''FireCrawl'' (FireCrawlScraper_scrape sv) firecrawl [] s"
  have one: "distinct (fst ?l1) \<and> (\<forall>a\<in>set (fst ?l1). a < length (heap (snd ?l1)))"
    by (rule scrape_loop_fresh) simp_all
  have "distinct (fst (scrape_loop ''Twitter'' (TwitterScraper_scrape sv) twitter (fst ?l1) (snd ?l1)))
    \<and> (\<forall>a\<in>set (fst (scrape_loop ''Twitter'' (TwitterScraper_scrape sv) twitter (fst ?l1) (snd ?l1))).
          a < length (heap (snd (scrape_loop ''Twitter'' (TwitterScraper_scrape sv) twitter
                                   (fst ?l1) (snd ?l1)))))"
    using one by (intro scrape_loop_fresh) simp_all
  then show ?thesis
    using assms by (simp add: scrape_stage_loops)
qed

lemma select_stage_keeps_shape:
  "set (fst (select_stage sv allContents s)) \<subseteq> set allContents
   \<and> (distinct allContents \<longrightarrow> distinct (fst (select_stage sv allContents s)))
   \<and> length (heap (snd (select_stage sv allContents s))) = length (heap s)"
proof -
  have f: "set (fst (filter_stage ranked allContents t)) \<subseteq> set allContents
      \<and> (distinct allContents \<longrightarrow> distinct (fst (filter_stage ranked allContents t)))
      \<and> length (heap (snd (filter_stage ranked allContents t))) = length (heap t)" for ranked t
    by (auto simp: filter_stage_def case_prod_beta filter_loop_kept filter_loop_length)
  have r: "heap (snd (rank_stage sv allContents s)) = heap s"
    by (simp add: rank_stage_def heap_notify heap_record_call split: sum.splits)
  show ?thesis
    using f [of "fst (rank_stage sv allContents s)" "snd (rank_stage sv allContents s)"] r
    by (simp add: select_stage_def case_prod_beta set_sort_by_score distinct_sort_by_score)
qed

text \<open>The lists a run enriches are of the kind the statements above assume: the sliced-off
  list has no address twice, and every address in it is in the store.\<close>

lemma run_lists_wellformed:
  assumes "scrape_stage sv firecrawl twitter s = (Inr allContents, s1)"
    and "select_stage sv allContents (s1\<lparr>stats := st\<rparr>) = (ordered, s2)"
  shows "distinct (slice0 ordered n)
    \<and> (\<forall>a\<in>set (slice0 ordered n). a < length (heap (record_call c s2)))"
proof -
  have fresh: "distinct allContents" "\<forall>a\<in>set allContents. a < length (heap s1)"
    using scrape_stage_fresh [OF assms(1)] by simp_all
  have shape: "set ordered \<subseteq> set allContents" "distinct ordered"
    "length (heap s2) = length (heap s1)"
    using select_stage_keeps_shape [of sv allContents "s1\<lparr>stats := st\<rparr>"] assms(2) fresh(1)
    by simp_all
  have top: "slice0 ordered n = take (length (slice0 ordered n)) ordered"
    by (rule slice0_take)
  have "distinct (take (length (slice0 ordered n)) ordered)"
    using shape(2) by (rule distinct_take)
  then have d: "distinct (slice0 ordered n)"
    using top by simp
  have "set (take (length (slice0 ordered n)) ordered) \<subseteq> set ordered"
    by (rule set_take_subset)
  then have "set (slice0 ordered n) \<subseteq> set allContents"
    using top shape(1) by auto
  then show ?thesis
    using d fresh(2) shape(3) by (auto simp: heap_record_call)
qed

subsection \<open>The titles the headline is made from\<close>

lemma joined_titles_after_enrich:
  assumes "distinct allContents" and "\<forall>a\<in>set allContents. a < length (heap s)"
  shows "joined_titles (enrich_stage sv (slice0 allContents n) s) allContents
           = join separator
               (map (\<lambda>a. title (enriched sv (heap s ! a))) (slice0 allContents n)
                @ map (\<lambda>a. title (heap s ! a)) (drop (length (slice0 allContents n)) allContents))"
proof -
  let ?k = "length (slice0 allContents n)"
  let ?top = "slice0 allContents n"
  let ?rest = "drop ?k allContents"
  let ?s = "enrich_stage sv ?top s"
  have top: "?top = take ?k allContents" by (rule slice0_take)
  have whole: "allContents = ?top @ ?rest"
    using top by (metis append_take_drop_id)
  have d: "distinct (?top @ ?rest)" using assms(1) whole by simp
  then have dt: "distinct ?top" and disj: "set ?top \<inter> set ?rest = {}" by simp_all
  have sub: "set ?top \<subseteq> set allContents" "set ?rest \<subseteq> set allContents"
    using whole by (metis Un_upper1 set_append, metis Un_upper2 set_append)
  have in_top: "title (heap ?s ! a) = title (enriched sv (heap s ! a))" if "a \<in> set ?top" for a
  proof -
    have "a < length (heap s)" using that sub(1) assms(2) by auto
    then show ?thesis using that heap_enrich_stage [OF dt, of a s sv] by simp
  qed
  have in_rest: "title (heap ?s ! a) = title (heap s ! a)" if "a \<in> set ?rest" for a
  proof -
    have "a \<notin> set ?top" using that disj by auto
    moreover have "a < length (heap s)" using that sub(2) assms(2) by auto
    ultimately show ?thesis using heap_enrich_stage [OF dt, of a s sv] by simp
  qed
  have "map (\<lambda>a. title (heap ?s ! a)) (?top @ ?rest)
      = map (\<lambda>a. title (enriched sv (heap s ! a))) ?top @ map (\<lambda>a. title (heap s ! a)) ?rest"
    using in_top in_rest by simp
  then have "map (\<lambda>a. title (heap ?s ! a)) allContents
      = map (\<lambda>a. title (enriched sv (heap s ! a))) ?top @ map (\<lambda>a. title (heap s ! a)) ?rest"
    using whole by simp
  then show ?thesis
    by (simp add: joined_titles_def)
qed

lemma title_scored: "title (scored ranked c) = title c"
  by (simp add: scored_def split: option.splits)

lemma select_stage_title:
  assumes "b < length (heap s)"
  shows "title (heap (snd (select_stage sv allContents s)) ! b) = title (heap s ! b)"
proof -
  have f: "title (heap (snd (filter_stage ranked allContents t)) ! b) = title (heap t ! b)"
    if "b < length (heap t)" for ranked t
  proof (cases "ranked = []")
    case True
    then show ?thesis by (simp add: filter_stage_def)
  next
    case False
    then show ?thesis
      using filter_stage_heap [OF False that, of allContents] by (simp add: title_scored)
  qed
  have r: "heap (snd (rank_stage sv allContents s)) = heap s"
    by (simp add: rank_stage_def heap_notify heap_record_call split: sum.splits)
  show ?thesis
    using f [of "snd (rank_stage sv allContents s)" "fst (rank_stage sv allContents s)"] r assms
    by (simp add: select_stage_def case_prod_beta)
qed

text \<open>
  Claim C8. \<open>topContents\<close> is a slice of \<open>allContents\<close> and holds the same objects, so
  what enrichment writes is seen through \<open>allContents\<close>: the string given to
  \<open>generateTitle\<close> joins, in sorted order, the enriched titles (from the summary, or the
  fallback) of the first items, as many as were sliced off, and after them the titles
  the remaining items were scraped with.
\<close>

theorem headline_reads_enriched_titles:
  assumes "scrape_stage sv firecrawl twitter s = (Inr allContents, s1)"
    and "allContents \<noteq> []"
    and "select_stage sv allContents (s1\<lparr>stats := (stats s1)\<lparr>contents := length allContents\<rparr>\<rparr>)
           = (ordered, s2)"
    and "config_get sv ''ARTICLE_NUM'' = Inr n"
  shows "GenerateTitle
           (join separator
              (map (\<lambda>a. title (enriched sv (heap s2 ! a))) (slice0 ordered n)
               @ map (\<lambda>a. title (heap s1 ! a)) (drop (length (slice0 ordered n)) ordered)))
         \<in> set (calls (snd (after_sources sv firecrawl twitter s)))"
proof -
  let ?s1 = "s1\<lparr>stats := (stats s1)\<lparr>contents := length allContents\<rparr>\<rparr>"
  let ?s2 = "record_call (ConfigGet ''ARTICLE_NUM'') s2"
  let ?top = "slice0 ordered n"
  have fresh: "distinct allContents" "\<forall>a\<in>set allContents. a < length (heap s1)"
    using scrape_stage_fresh [OF assms(1)] by simp_all
  have shape: "set ordered \<subseteq> set allContents" "distinct ordered"
    "length (heap s2) = length (heap s1)"
    using select_stage_keeps_shape [of sv allContents ?s1] assms(3) fresh(1) by simp_all
  have valid: "\<forall>a\<in>set ordered. a < length (heap ?s2)"
    using shape fresh(2) by (auto simp: heap_record_call)
  have titles: "title (heap s2 ! a) = title (heap s1 ! a)" if "a \<in> set ordered" for a
  proof -
    have "a < length (heap ?s1)" using that shape(1) fresh(2) by auto
    then show ?thesis
      using select_stage_title [of a ?s1 sv allContents] assms(3) by simp
  qed
  have rest: "map (\<lambda>a. title (heap s2 ! a)) (drop (length ?top) ordered)
      = map (\<lambda>a. title (heap s1 ! a)) (drop (length ?top) ordered)"
    using titles by (auto dest: in_set_dropD)
  have run: "after_sources sv firecrawl twitter s
      = publish_stage sv (length firecrawl + length twitter) ordered ?top
          (enrich_stage sv ?top ?s2)"
    using assms by (simp add: after_sources_def after_scrape_def Let_def)
  have "joined_titles (enrich_stage sv ?top ?s2) ordered
      = join separator
          (map (\<lambda>a. title (enriched sv (heap s2 ! a))) ?top
           @ map (\<lambda>a. title (heap s1 ! a)) (drop (length ?top) ordered))"
    using joined_titles_after_enrich [OF shape(2) valid, of sv n] rest
    by (simp add: heap_record_call)
  then show ?thesis
    using publish_stage_headline_call [of "enrich_stage sv ?top ?s2" ordered sv
        "length firecrawl + length twitter" ?top]
    by (simp add: run)
qed

theorem headline_reads_enriched_titles_witness:
  "scrape_stage demo2 [[0x66, 0x31], [0x66, 0x32]] [[0x74, 0x31]] initial
     = (Inr [0, 1, 2, 3], snd (scrape_stage demo2 [[0x66, 0x31], [0x66, 0x32]] [[0x74, 0x31]] initial))
   \<and> [0, 1, 2, 3 :: nat] \<noteq> []
   \<and> config_get demo2 ''ARTICLE_NUM'' = Inr (Number 2)
   \<and> map (\<lambda>a. title (heap (snd (scrape_stage demo2 [[0x66, 0x31], [0x66, 0x32]] [[0x74, 0x31]]
                                 initial)) ! a)) [2, 1, 3] = [[0x61], [], [0x64]]
   \<and> GenerateTitle ([0x53] @ separator @ untitled @ separator @ [0x64])
       \<in> set (calls (snd (after_sources demo2 [[0x66, 0x31], [0x66, 0x32]] [[0x74, 0x31]] initial)))"
proof -
  let ?scr = "scrape_stage demo2 [[0x66, 0x31], [0x66, 0x32]] [[0x74, 0x31]] initial"
  let ?s1 = "(snd ?scr)\<lparr>stats := (stats (snd ?scr))\<lparr>contents := length [0, 1, 2, 3 :: nat]\<rparr>\<rparr>"
  let ?sel = "select_stage demo2 [0, 1, 2, 3] ?s1"
  have "fst ?scr = Inr [0, 1, 2, 3]"
    by code_simp
  then have h1: "?scr = (Inr [0, 1, 2, 3], snd ?scr)"
    by (metis prod.collapse)
  have h2: "[0, 1, 2, 3 :: nat] \<noteq> []"
    by simp
  have h3: "?sel = (fst ?sel, snd ?sel)"
    by simp
  have h4: "config_get demo2 ''ARTICLE_NUM'' = Inr (Number 2)"
    by (simp add: demo2_def demo_def)
  have before: "map (\<lambda>a. title (heap (snd ?scr) ! a)) [2, 1, 3] = [[0x61], [], [0x64]]"
    by code_simp
  have joined: "join separator
      (map (\<lambda>a. title (enriched demo2 (heap (snd ?sel) ! a))) (slice0 (fst ?sel) (Number 2))
       @ map (\<lambda>a. title (heap (snd ?scr) ! a))
           (drop (length (slice0 (fst ?sel) (Number 2))) (fst ?sel)))
      = [0x53] @ separator @ untitled @ separator @ [0x64]"
    by code_simp
  show ?thesis
    using h1 h2 h4 before headline_reads_enriched_titles [OF h1 h2 h3 h4]
    by (simp only: joined simp_thms)
qed

subsection \<open>The headline\<close>

lemma code_points_le_length: "code_points s \<le> length s"
  by (induction s rule: code_points.induct) auto

lemma headline_stage_result:
  assumes "headline_stage sv allContents s = (Inr summaryTitle, s1)"
  shows "\<exists>generated. generateTitle sv (joined_titles s allContents) = Inr generated
           \<and> summaryTitle = headline (toLocaleDateString sv 0) generated"
  using assms by (auto simp: headline_stage_def split: sum.splits)

lemma headline_stage_no_publish:
  "Publish article t summary mediaId \<in> set (calls (snd (headline_stage sv allContents s)))
     \<Longrightarrow> Publish article t summary mediaId \<in> set (calls s)"
  by (simp add: headline_stage_calls)

lemma cover_stage_no_publish:
  "Publish article t summary mediaId \<in> set (calls (snd (cover_stage sv summaryTitle s)))
     \<Longrightarrow> Publish article t summary mediaId \<in> set (calls s)"
  by (simp add: cover_stage_def record_call_def Let_def split: sum.splits option.splits)

lemma ship_stage_publish:
  "Publish article t summary mediaId
     \<in> set (calls (snd (ship_stage sv totalSources templateData summaryTitle imageUrl s)))
     \<Longrightarrow> Publish article t summary mediaId \<in> set (calls s)
         \<or> (t = summaryTitle \<and> summary = summaryTitle)"
  by (auto simp: ship_stage_def record_call_def report_stage_def notify_def Let_def
      split: sum.splits if_splits)

lemma publish_stage_publish:
  assumes "Publish article t summary mediaId
             \<in> set (calls (snd (publish_stage sv totalSources allContents topContents s)))"
    and "Publish article t summary mediaId \<notin> set (calls s)"
  shows "\<exists>generated. generateTitle sv (joined_titles s allContents) = Inr generated
           \<and> t = headline (toLocaleDateString sv 0) generated \<and> summary = t"
proof -
  obtain r1 s1 where h: "headline_stage sv allContents s = (r1, s1)"
    by (cases "headline_stage sv allContents s")
  have n1: "Publish article t summary mediaId \<notin> set (calls s1)"
    using headline_stage_no_publish [of article t summary mediaId sv allContents s] h assms(2)
    by auto
  show ?thesis
  proof (cases r1)
    case (Inl error)
    then show ?thesis using assms(1) h n1 by (simp add: publish_stage_def)
  next
    case (Inr summaryTitle)
    obtain r2 s2 where c: "cover_stage sv summaryTitle s1 = (r2, s2)"
      by (cases "cover_stage sv summaryTitle s1")
    have n2: "Publish article t summary mediaId \<notin> set (calls s2)"
      using cover_stage_no_publish [of article t summary mediaId sv summaryTitle s1] c n1
      by auto
    show ?thesis
    proof (cases r2)
      case (Inl error)
      then show ?thesis using assms(1) h Inr c n2 by (simp add: publish_stage_def)
    next
      case (Inr imageUrl)
      have "Publish article t summary mediaId
          \<in> set (calls (snd (ship_stage sv totalSources
                                (map template_of (deref s topContents)) summaryTitle imageUrl s2)))"
        using assms(1) h \<open>r1 = Inr summaryTitle\<close> c Inr by (simp add: publish_stage_def)
      then have "t = summaryTitle \<and> summary = summaryTitle"
        using ship_stage_publish n2 by blast
      then show ?thesis
        using headline_stage_result [of sv allContents s summaryTitle s1] h
          \<open>r1 = Inr summaryTitle\<close> by auto
    qed
  qed
qed

text \<open>
  Claim C6. Whatever string \<open>generateTitle\<close> returns, the headline is the date, the
  campaign label and the separator put in front of it, cut to the first 64 code units: it
  never has more than 64 code units, hence never more than 64 code points. A \<open>publish\<close>
  call made by the publication stages carries that headline, as title and as summary.
\<close>

theorem headline_at_most_64:
  "headline date generated = take 64 (date @ campaign @ separator @ generated)
   \<and> length (headline date generated) \<le> 64
   \<and> code_points (headline date generated) \<le> 64
   \<and> (Publish article t summary mediaId
         \<in> set (calls (snd (publish_stage sv totalSources allContents topContents s)))
       \<and> Publish article t summary mediaId \<notin> set (calls s)
       \<longrightarrow> (\<exists>g. generateTitle sv (joined_titles s allContents) = Inr g
              \<and> t = headline (toLocaleDateString sv 0) g \<and> summary = t
              \<and> length t \<le> 64))"
proof -
  have len: "length (headline d g) \<le> 64" for d g
    by (simp add: headline_def)
  have "code_points (headline date generated) \<le> 64"
    using code_points_le_length [of "headline date generated"] len [of date generated]
    by (rule order_trans)
  then show ?thesis
    using len publish_stage_publish [of article t summary mediaId sv totalSources allContents
        topContents s]
    by (auto simp: headline_def)
qed

theorem headline_at_most_64_witness:
  "Publish [0x64] (headline (toLocaleDateString demo 0) (replicate 100 0x61))
       (headline (toLocaleDateString demo 0) (replicate 100 0x61)) [0x6D]
     \<in> set (calls (snd (publish_stage (demo\<lparr>generateTitle := (\<lambda>joined. Inr (replicate 100 0x61))\<rparr>)
                          3 [2, 1] [2, 1] scraped)))
   \<and> Publish [0x64] (headline (toLocaleDateString demo 0) (replicate 100 0x61))
       (headline (toLocaleDateString demo 0) (replicate 100 0x61)) [0x6D]
     \<notin> set (calls scraped)
   \<and> length (toLocaleDateString demo 0 @ campaign @ separator @ replicate 100 0x61) = 117
   \<and> length (headline (toLocaleDateString demo 0) (replicate 100 0x61)) = 64
   \<and> (\<exists>g. generateTitle (demo\<lparr>generateTitle := (\<lambda>joined. Inr (replicate 100 0x61))\<rparr>)
              (joined_titles scraped [2, 1]) = Inr g
          \<and> headline (toLocaleDateString demo 0) (replicate 100 0x61)
              = headline (toLocaleDateString
                            (demo\<lparr>generateTitle := (\<lambda>joined. Inr (replicate 100 0x61))\<rparr>) 0) g
          \<and> length (headline (toLocaleDateString demo 0) (replicate 100 0x61)) \<le> 64)"
proof -
  let ?sv = "demo\<lparr>generateTitle := (\<lambda>joined. Inr (replicate 100 0x61))\<rparr>"
  let ?h = "headline (toLocaleDateString demo 0) (replicate 100 0x61)"
  have h1: "Publish [0x64] ?h ?h [0x6D]
      \<in> set (calls (snd (publish_stage ?sv 3 [2, 1] [2, 1] scraped)))"
    by code_simp
  have h2: "Publish [0x64] ?h ?h [0x6D] \<notin> set (calls scraped)"
    by (simp add: scraped_def initial_def)
  have raw: "length (toLocaleDateString demo 0 @ campaign @ separator @ replicate 100 0x61) = 117"
    by (simp add: demo_def campaign_def separator_def)
  have cut: "length ?h = 64"
    by (simp add: headline_def demo_def campaign_def separator_def)
  note run = headline_at_most_64 [where sv = ?sv and s = scraped and allContents = "[2, 1]"
      and topContents = "[2, 1]" and totalSources = 3 and article = "[0x64]" and t = ?h
      and summary = ?h and mediaId = "[0x6D]"]
  have "\<exists>g. generateTitle ?sv (joined_titles scraped [2, 1]) = Inr g
          \<and> ?h = headline (toLocaleDateString ?sv 0) g \<and> length ?h \<le> 64"
    using run h1 h2 by blast
  then show ?thesis
    using h1 h2 raw cut by blast
qed

subsection \<open>The balance query\<close>

lemma extends_after_scrape: "extends s (snd (after_scrape sv totalSources allContents s))"
proof -
  obtain ordered s1 where sel: "select_stage sv allContents s = (ordered, s1)"
    by (cases "select_stage sv allContents s")
  have e1: "extends s (record_call (ConfigGet ''ARTICLE_NUM'') s1)"
    using extends_trans [OF extends_select_stage [of s sv allContents] extends_record_call] sel
    by simp
  show ?thesis
  proof (cases "config_get sv ''ARTICLE_NUM''")
    case (Inl error)
    then show ?thesis using sel e1 by (simp add: after_scrape_def)
  next
    case (Inr n)
    have "extends s
            (snd (publish_stage sv totalSources ordered (slice0 ordered n)
                   (enrich_stage sv (slice0 ordered n)
                      (record_call (ConfigGet ''ARTICLE_NUM'') s1))))"
      by (rule extends_trans [OF e1 extends_trans [OF extends_enrich_stage extends_publish_stage]])
    then show ?thesis
      using sel Inr by (simp add: after_scrape_def Let_def)
  qed
qed

lemma extends_after_sources: "extends s (snd (after_sources sv firecrawl twitter s))"
proof -
  obtain r s1 where scr: "scrape_stage sv firecrawl twitter s = (r, s1)"
    by (cases "scrape_stage sv firecrawl twitter s")
  have e1: "extends s s1"
    using extends_scrape_stage [of s sv firecrawl twitter] scr by simp
  show ?thesis
  proof (cases r)
    case (Inl error)
    then show ?thesis using scr e1 by (simp add: after_sources_def)
  next
    case (Inr allContents)
    let ?s2 = "s1\<lparr>stats := (stats s1)\<lparr>contents := length allContents\<rparr>\<rparr>"
    have e2: "extends s ?s2" using e1 by (rule extends_stats)
    show ?thesis
    proof (cases "allContents = []")
      case True
      then show ?thesis
        using scr Inr extends_trans [OF e2 extends_notify]
        by (simp add: after_sources_def)
    next
      case False
      then show ?thesis
        using scr Inr extends_trans [OF e2 extends_after_scrape]
        by (simp add: after_sources_def)
    qed
  qed
qed

lemma extends_process_try_low:
  assumes "getCNYBalance sv = Inr balance" and "balance < 1"
  shows "extends
           (record_call GetCronSources
              (notify Warning LowBalance
                 (record_call GetCNYBalance (notify Info WorkflowStarted s))))
           (snd (process_try sv s))"
proof (cases "getCronSources sv")
  case (Inl error)
  then show ?thesis using assms by (simp add: process_try_def Let_def extends_refl)
next
  case (Inr sources)
  then show ?thesis
    using assms extends_after_sources
    by (cases sources) (simp add: process_try_def Let_def)
qed

lemma extends_process: "extends (snd (process_try sv s)) (snd (process sv s))"
  by (cases "process_try sv s")
     (simp add: process_def extends_notify extends_refl split: sum.splits)

lemma extends_process_try_start:
  "extends (record_call GetCNYBalance (notify Info WorkflowStarted s)) (snd (process_try sv s))"
proof (cases "getCNYBalance sv")
  case (Inl error)
  then show ?thesis by (simp add: process_try_def Let_def extends_refl)
next
  case (Inr balance)
  let ?s1 = "record_call GetCNYBalance (notify Info WorkflowStarted s)"
  let ?s2 = "if balance < 1 then notify Warning LowBalance ?s1 else ?s1"
  have e3: "extends ?s1 (record_call GetCronSources ?s2)"
    using extends_trans [OF extends_notify extends_record_call] extends_record_call
    by (cases "balance < 1") simp_all
  show ?thesis
  proof (cases "getCronSources sv")
    case (Inl error)
    then show ?thesis using Inr e3 by (simp add: process_try_def Let_def)
  next
    case sources: (Inr sources)
    obtain firecrawl twitter where "sources = (firecrawl, twitter)"
      by (cases sources)
    then show ?thesis
      using Inr sources extends_trans [OF e3 extends_after_sources]
      by (simp add: process_try_def Let_def)
  qed
qed

text \<open>
  Claim C9. The balance query is the first call of every run. If the query throws, the
  error reaches the handler of \<open>process\<close>: the run has sent its start notification and the
  error notification, has called nothing but the balance query, and throws the same
  error. If the balance is below 1, a warning is sent and the run goes on: the next call
  is the source list.
\<close>

theorem balance_query_outcomes:
  "prefix (calls s @ [GetCNYBalance]) (calls (snd (process sv s)))
   \<and> (getCNYBalance sv = Inl error \<longrightarrow>
      process sv s =
        (Inl error,
         s\<lparr>notified := notified s @ [(Info, WorkflowStarted), (Error, WorkflowFailed error)],
           calls := calls s @ [GetCNYBalance]\<rparr>))
   \<and> (getCNYBalance sv = Inr balance \<and> balance < 1 \<longrightarrow>
        prefix (notified s @ [(Info, WorkflowStarted), (Warning, LowBalance)])
          (notified (snd (process sv s)))
        \<and> prefix (calls s @ [GetCNYBalance, GetCronSources]) (calls (snd (process sv s))))"
proof -
  have thrown: "process sv s =
        (Inl error,
         s\<lparr>notified := notified s @ [(Info, WorkflowStarted), (Error, WorkflowFailed error)],
           calls := calls s @ [GetCNYBalance]\<rparr>)"
    if "getCNYBalance sv = Inl error"
    using that by (simp add: process_def process_try_def Let_def notify_def record_call_def)
  have low: "prefix (notified s @ [(Info, WorkflowStarted), (Warning, LowBalance)])
          (notified (snd (process sv s)))
        \<and> prefix (calls s @ [GetCNYBalance, GetCronSources]) (calls (snd (process sv s)))"
    if "getCNYBalance sv = Inr balance" and "balance < 1"
  proof -
    let ?s3 = "record_call GetCronSources
                (notify Warning LowBalance
                   (record_call GetCNYBalance (notify Info WorkflowStarted s)))"
    have "extends ?s3 (snd (process sv s))"
      by (rule extends_trans [OF extends_process_try_low [OF that] extends_process])
    moreover have "notified ?s3 = notified s @ [(Info, WorkflowStarted), (Warning, LowBalance)]"
      and "calls ?s3 = calls s @ [GetCNYBalance, GetCronSources]"
      by (simp_all add: record_call_def notify_def)
    ultimately show ?thesis
      by (simp add: extends_def)
  qed
  have "extends (record_call GetCNYBalance (notify Info WorkflowStarted s)) (snd (process sv s))"
    by (rule extends_trans [OF extends_process_try_start extends_process])
  then have first: "prefix (calls s @ [GetCNYBalance]) (calls (snd (process sv s)))"
    by (simp add: extends_def record_call_def notify_def)
  show ?thesis
    using first thrown low by blast
qed

theorem balance_query_outcomes_witness:
  "getCNYBalance (demo\<lparr>getCNYBalance := Inl (Thrown [0x71])\<rparr>) = Inl (Thrown [0x71])
   \<and> process (demo\<lparr>getCNYBalance := Inl (Thrown [0x71])\<rparr>) initial =
       (Inl (Thrown [0x71]),
        initial\<lparr>notified := [(Info, WorkflowStarted), (Error, WorkflowFailed (Thrown [0x71]))],
                calls := [GetCNYBalance]\<rparr>)
   \<and> getCNYBalance (demo\<lparr>getCNYBalance := Inr 0.5\<rparr>) = Inr 0.5 \<and> (0.5 :: real) < 1
   \<and> prefix [(Info, WorkflowStarted), (Warning, LowBalance)]
        (notified (snd (process (demo\<lparr>getCNYBalance := Inr 0.5\<rparr>) initial)))
   \<and> prefix [GetCNYBalance, GetCronSources]
        (calls (snd (process (demo\<lparr>getCNYBalance := Inr 0.5\<rparr>) initial)))"
proof -
  have h1: "getCNYBalance (demo\<lparr>getCNYBalance := Inl (Thrown [0x71])\<rparr>) = Inl (Thrown [0x71])"
    by simp
  have h2: "getCNYBalance (demo\<lparr>getCNYBalance := Inr 0.5\<rparr>) = Inr 0.5 \<and> (0.5 :: real) < 1"
    by simp
  have empty: "notified initial = []" "calls initial = []"
    by (simp_all add: initial_def)
  have thrown: "process (demo\<lparr>getCNYBalance := Inl (Thrown [0x71])\<rparr>) initial =
       (Inl (Thrown [0x71]),
        initial\<lparr>notified := [(Info, WorkflowStarted), (Error, WorkflowFailed (Thrown [0x71]))],
                calls := [GetCNYBalance]\<rparr>)"
    using h1 empty
      balance_query_outcomes [where sv = "demo\<lparr>getCNYBalance := Inl (Thrown [0x71])\<rparr>"
        and error = "Thrown [0x71]" and s = initial]
    by simp
  have low: "prefix [(Info, WorkflowStarted), (Warning, LowBalance)]
        (notified (snd (process (demo\<lparr>getCNYBalance := Inr 0.5\<rparr>) initial)))
     \<and> prefix [GetCNYBalance, GetCronSources]
        (calls (snd (process (demo\<lparr>getCNYBalance := Inr 0.5\<rparr>) initial)))"
    using h2 empty
      balance_query_outcomes [where sv = "demo\<lparr>getCNYBalance := Inr 0.5\<rparr>"
        and balance = "0.5" and s = initial]
    by simp
  show ?thesis
    using h1 h2 thrown low by blast
qed

subsection \<open>The batches of the enrichment loop\<close>

text \<open>A batch is a slice of at most ten items, and its \<open>summarize\<close> calls are made in
  array order on the items as they are when the batch starts.\<close>

lemma batch_at_most_batchSize: "length (take batchSize (drop i topContents)) \<le> 10"
  by (simp add: batchSize_def)

lemma calls_fold_record: "calls (fold (\<lambda>a. record_call (f a)) as s) = calls s @ map f as"
  by (induction as arbitrary: s) (simp_all add: record_call_def)

lemma calls_fold_resume:
  "calls (fold (\<lambda>(a, outcome). processContent_resume a outcome) pairs s) = calls s"
  by (induction pairs arbitrary: s)
     (simp_all add: case_prod_beta processContent_resume_def notify_def Let_def split: sum.splits)

lemma calls_process_batch:
  "calls (process_batch sv batch s) = calls s @ map (\<lambda>a. Summarize (heap s ! a)) batch"
  by (simp add: process_batch_def calls_fold_resume calls_fold_record)

subsection \<open>An undefined article count\<close>

lemma calls_enrich_loop:
  "filter (\<lambda>c. \<not> is_summarize c) (calls (enrich_loop sv i topContents s))
     = filter (\<lambda>c. \<not> is_summarize c) (calls s)
   \<and> length (filter is_summarize (calls (enrich_loop sv i topContents s)))
     = length (filter is_summarize (calls s)) + length (drop i topContents)"
proof (induction sv i topContents s rule: enrich_loop.induct)
  case (1 sv i topContents s)
  show ?case
  proof (cases "i < length topContents")
    case False
    then show ?thesis by (subst (1 2) enrich_loop.simps) simp
  next
    case True
    let ?batch = "take batchSize (drop i topContents)"
    let ?s = "process_batch sv ?batch s"
    have all_sum: "filter is_summarize (map (\<lambda>a. Summarize (heap s ! a)) ?batch)
        = map (\<lambda>a. Summarize (heap s ! a)) ?batch"
      by (simp add: is_summarize_def)
    have none_other: "filter (\<lambda>c. \<not> is_summarize c) (map (\<lambda>a. Summarize (heap s ! a)) ?batch) = []"
      by (simp add: is_summarize_def)
    have split: "length (drop i topContents)
        = length ?batch + length (drop (i + batchSize) topContents)"
      by (simp add: min_def)
    have step: "enrich_loop sv i topContents s = enrich_loop sv (i + batchSize) topContents ?s"
      using True by (subst enrich_loop.simps) simp
    show ?thesis
      using "1.IH" [OF True] all_sum none_other split
      by (simp only: step calls_process_batch filter_append length_append length_map
          append_Nil2 add.assoc)
  qed
qed

lemma calls_select_stage:
  "calls (snd (select_stage sv allContents s)) = calls s @ [RankContents (deref s allContents)]"
  by (simp add: select_stage_def rank_stage_def filter_stage_def record_call_def notify_def
      case_prod_beta split: sum.splits)

lemma cover_stage_no_render:
  "Render td \<in> set (calls (snd (cover_stage sv summaryTitle s))) \<Longrightarrow> Render td \<in> set (calls s)"
  by (simp add: cover_stage_def record_call_def Let_def split: sum.splits option.splits)

lemma ship_stage_render:
  "Render td \<in> set (calls (snd (ship_stage sv totalSources templateData summaryTitle imageUrl s)))
     \<Longrightarrow> Render td \<in> set (calls s) \<or> td = templateData"
  by (auto simp: ship_stage_def record_call_def report_stage_def notify_def Let_def
      split: sum.splits if_splits)

lemma publish_stage_render:
  assumes "Render td \<in> set (calls (snd (publish_stage sv totalSources allContents topContents s)))"
    and "Render td \<notin> set (calls s)"
  shows "td = map template_of (deref s topContents)"
proof -
  obtain r1 s1 where h: "headline_stage sv allContents s = (r1, s1)"
    by (cases "headline_stage sv allContents s")
  have n1: "Render td \<notin> set (calls s1)"
    using headline_stage_calls [of sv allContents s] h assms(2) by simp
  show ?thesis
  proof (cases r1)
    case (Inl error)
    then show ?thesis using assms(1) h n1 by (simp add: publish_stage_def)
  next
    case (Inr summaryTitle)
    obtain r2 s2 where c: "cover_stage sv summaryTitle s1 = (r2, s2)"
      by (cases "cover_stage sv summaryTitle s1")
    have n2: "Render td \<notin> set (calls s2)"
      using cover_stage_no_render [of td sv summaryTitle s1] c n1 by auto
    show ?thesis
    proof (cases r2)
      case (Inl error)
      then show ?thesis using assms(1) h Inr c n2 by (simp add: publish_stage_def)
    next
      case (Inr imageUrl)
      have "Render td
          \<in> set (calls (snd (ship_stage sv totalSources
                                (map template_of (deref s topContents)) summaryTitle imageUrl s2)))"
        using assms(1) h \<open>r1 = Inr summaryTitle\<close> c Inr by (simp add: publish_stage_def)
      then show ?thesis
        using ship_stage_render n2 by blast
    qed
  qed
qed

lemma enrich_stage_other_calls:
  assumes "\<not> is_summarize c"
  shows "c \<in> set (calls (enrich_stage sv topContents s)) \<longleftrightarrow> c \<in> set (calls s)"
proof -
  have "set (filter (\<lambda>c. \<not> is_summarize c) (calls (enrich_stage sv topContents s)))
      = set (filter (\<lambda>c. \<not> is_summarize c) (calls s))"
    using calls_enrich_loop [of sv 0 topContents s] by (simp only: enrich_stage_def)
  then show ?thesis
    using assms by auto
qed

lemma after_scrape_render:
  assumes "config_get sv ''ARTICLE_NUM'' = Inr n"
    and "Render td \<in> set (calls (snd (after_scrape sv totalSources allContents s)))"
    and "Render td \<notin> set (calls s)"
  shows "length td = length (slice0 (fst (select_stage sv allContents s)) n)"
proof -
  let ?ordered = "fst (select_stage sv allContents s)"
  let ?s2 = "record_call (ConfigGet ''ARTICLE_NUM'') (snd (select_stage sv allContents s))"
  let ?top = "slice0 ?ordered n"
  have run: "after_scrape sv totalSources allContents s
      = publish_stage sv totalSources ?ordered ?top (enrich_stage sv ?top ?s2)"
    using assms(1) by (simp add: after_scrape_def case_prod_beta Let_def)
  have "Render td \<notin> set (calls ?s2)"
    using assms(3) by (simp add: record_call_def calls_select_stage)
  then have "Render td \<notin> set (calls (enrich_stage sv ?top ?s2))"
    using enrich_stage_other_calls [of "Render td" sv ?top ?s2] by (simp add: is_summarize_def)
  then have "td = map template_of (deref (enrich_stage sv ?top ?s2) ?top)"
    using publish_stage_render assms(2) run by simp
  then show ?thesis
    by (simp add: deref_def)
qed

text \<open>
  Claim C10. When the configuration gives \<open>undefined\<close> for \<open>ARTICLE_NUM\<close>, the slice
  keeps the whole array, so the list that is enriched and rendered is the whole sorted
  list: nothing is truncated and nothing throws at the truncation. The enrichment makes
  one \<open>summarize\<close> call per sorted item, and a \<open>render\<close> call of the run receives one
  record per sorted item.
\<close>

theorem undefined_article_num_keeps_all:
  assumes "config_get sv ''ARTICLE_NUM'' = Inr Undefined"
  shows "slice0 (fst (select_stage sv allContents s)) Undefined = fst (select_stage sv allContents s)
    \<and> after_scrape sv totalSources allContents s =
        publish_stage sv totalSources
          (fst (select_stage sv allContents s)) (fst (select_stage sv allContents s))
          (enrich_stage sv (fst (select_stage sv allContents s))
             (record_call (ConfigGet ''ARTICLE_NUM'') (snd (select_stage sv allContents s))))
    \<and> length (filter is_summarize (calls (enrich_stage sv (fst (select_stage sv allContents s))
          (record_call (ConfigGet ''ARTICLE_NUM'') (snd (select_stage sv allContents s))))))
        = length (filter is_summarize (calls s)) + length (fst (select_stage sv allContents s))
    \<and> (Render td \<in> set (calls (snd (after_scrape sv totalSources allContents s)))
         \<and> Render td \<notin> set (calls s)
        \<longrightarrow> length td = length (fst (select_stage sv allContents s)))"
proof -
  let ?ordered = "fst (select_stage sv allContents s)"
  let ?s2 = "record_call (ConfigGet ''ARTICLE_NUM'') (snd (select_stage sv allContents s))"
  have whole: "slice0 ?ordered Undefined = ?ordered"
    by (rule slice0_undefined)
  have run: "after_scrape sv totalSources allContents s
      = publish_stage sv totalSources ?ordered ?ordered (enrich_stage sv ?ordered ?s2)"
    using assms by (simp add: after_scrape_def slice0_undefined case_prod_beta)
  have "filter is_summarize (calls ?s2) = filter is_summarize (calls s)"
    by (simp add: record_call_def calls_select_stage is_summarize_def)
  then have count: "length (filter is_summarize (calls (enrich_stage sv ?ordered ?s2)))
      = length (filter is_summarize (calls s)) + length ?ordered"
    using calls_enrich_loop [of sv 0 ?ordered ?s2] by (simp add: enrich_stage_def)
  have rendered: "length td = length ?ordered"
    if "Render td \<in> set (calls (snd (after_scrape sv totalSources allContents s)))"
      and "Render td \<notin> set (calls s)"
    using after_scrape_render [OF assms that] whole by simp
  show ?thesis
    using whole run count rendered by blast
qed

theorem undefined_article_num_keeps_all_witness:
  "config_get (demo\<lparr>config_get := (\<lambda>key. Inr Undefined)\<rparr>) ''ARTICLE_NUM'' = Inr Undefined
   \<and> fst (select_stage (demo\<lparr>config_get := (\<lambda>key. Inr Undefined)\<rparr>) [0, 1, 2] scraped) = [2, 1]
   \<and> slice0 [2, 1 :: nat] Undefined = [2, 1]
   \<and> Render [template_of (overwrite \<lparr>summary_title = [0x53], summary_content = [0x54],
                                     summary_keywords = []\<rparr>
                          ((item [0x41] [0x61])\<lparr>score := Some 0.9\<rparr>)),
              template_of (fallback ((item [0x42] [])\<lparr>score := Some 0.4\<rparr>))]
       \<in> set (calls (snd (after_scrape (demo\<lparr>config_get := (\<lambda>key. Inr Undefined)\<rparr>) 3
                            [0, 1, 2] scraped)))
   \<and> length (filter is_summarize
        (calls (snd (after_scrape (demo\<lparr>config_get := (\<lambda>key. Inr Undefined)\<rparr>) 3
                       [0, 1, 2] scraped)))) = 2"
proof -
  let ?sv = "demo\<lparr>config_get := (\<lambda>key. Inr Undefined)\<rparr>"
  let ?td = "[template_of (overwrite \<lparr>summary_title = [0x53], summary_content = [0x54],
                                     summary_keywords = []\<rparr>
                          ((item [0x41] [0x61])\<lparr>score := Some 0.9\<rparr>)),
              template_of (fallback ((item [0x42] [])\<lparr>score := Some 0.4\<rparr>))]"
  have h1: "config_get ?sv ''ARTICLE_NUM'' = Inr Undefined"
    by simp
  have sel: "fst (select_stage ?sv [0, 1, 2] scraped) = [2, 1]"
    by code_simp
  note run = undefined_article_num_keeps_all [OF h1, where allContents = "[0, 1, 2]"
      and s = scraped and totalSources = 3 and td = ?td]
  have eq: "after_scrape ?sv 3 [0, 1, 2] scraped =
        publish_stage ?sv 3
          (fst (select_stage ?sv [0, 1, 2] scraped)) (fst (select_stage ?sv [0, 1, 2] scraped))
          (enrich_stage ?sv (fst (select_stage ?sv [0, 1, 2] scraped))
             (record_call (ConfigGet ''ARTICLE_NUM'') (snd (select_stage ?sv [0, 1, 2] scraped))))"
    using run by blast
  have r1: "Render ?td \<in> set (calls (snd (after_scrape ?sv 3 [0, 1, 2] scraped)))"
    unfolding eq by code_simp
  have r2: "Render ?td \<notin> set (calls scraped)"
    by (simp add: scraped_def initial_def)
  have n: "length (filter is_summarize (calls (snd (after_scrape ?sv 3 [0, 1, 2] scraped)))) = 2"
    unfolding eq by code_simp
  have "length ?td = length (fst (select_stage ?sv [0, 1, 2] scraped))"
    using run r1 r2 by blast
  moreover have "slice0 [2, 1 :: nat] Undefined = [2, 1]"
    using run sel by simp
  ultimately show ?thesis
    using h1 sel r1 n by blast
qed

end
